theory Spec2Isabelle
  imports Main "HOL-Library.Word"
begin

unbundle bit_operations_syntax

section \<open>Machine sizes and errors\<close>

text \<open>
  \<open>size_t\<close> values are natural numbers. The reduction modulo \<open>2 ^ 64\<close> is written out
  with \<open>size_t\<close> in the validators, in the size computations and in the difference
  counter; byte indexes inside a payload of fewer than \<open>2 ^ 63\<close> bytes (\<open>Buffer_inv\<close>
  below) cannot wrap and are computed on the naturals. Bytes are \<open>8 word\<close>, the
  generator's words are \<open>32 word\<close>.
\<close>

definition size_t :: "nat \<Rightarrow> nat" where
  "size_t n = n mod 2 ^ 64"

text \<open>Errors.h: the three exception classes (\<open>ArgumentError\<close> is the alias of
  \<open>InvalidArgumentError\<close>).\<close>

datatype error = OutOfRangeError | ArgumentError | RuntimeError

section \<open>CompareResult.cpp\<close>

record CompareResult =
  areEqual :: bool
  firstDifferenceOffset :: nat
  expectedValue :: "8 word"
  actualValue :: "8 word"
  differenceCount :: nat

text \<open>\<open>CompareResult::CompareResult()\<close>\<close>

definition CompareResult_equal :: CompareResult where
  "CompareResult_equal =
     \<lparr> areEqual = True, firstDifferenceOffset = 0, expectedValue = 0, actualValue = 0,
       differenceCount = 0 \<rparr>"

text \<open>\<open>CompareResult::CompareResult(firstDifferenceOffset, expectedValue, actualValue)\<close>\<close>

definition CompareResult_unequal :: "nat \<Rightarrow> 8 word \<Rightarrow> 8 word \<Rightarrow> CompareResult" where
  "CompareResult_unequal off e a =
     \<lparr> areEqual = False, firstDifferenceOffset = off, expectedValue = e, actualValue = a,
       differenceCount = 1 \<rparr>"

text \<open>\<open>CompareResult::AddDifference\<close>; \<open>_differenceCount++\<close> is an increment of a
  \<open>size_t\<close>.\<close>

definition AddDifference :: "CompareResult \<Rightarrow> nat \<Rightarrow> 8 word \<Rightarrow> 8 word \<Rightarrow> CompareResult" where
  "AddDifference r off e a =
     (if areEqual r
      then r\<lparr> areEqual := False, firstDifferenceOffset := off, expectedValue := e,
             actualValue := a, differenceCount := 1 \<rparr>
      else r\<lparr> differenceCount := size_t (differenceCount r + 1) \<rparr>)"

text \<open>A sequence of \<open>AddDifference\<close> calls, each with its own arguments, applied in order.\<close>

fun AddDifferences :: "CompareResult \<Rightarrow> (nat \<times> 8 word \<times> 8 word) list \<Rightarrow> CompareResult" where
  "AddDifferences r [] = r"
| "AddDifferences r ((off, e, a) # ds) = AddDifferences (AddDifference r off e a) ds"

section \<open>Random32.cpp over boost::random::taus88\<close>

text \<open>
  \<open>Random32\<close> wraps \<open>boost::random::taus88\<close>, a library type outside the repository.
  Its three components are written out as Boost.Random's
  \<open>linear_feedback_shift_engine<uint32_t, 32, k, q, s>\<close> defines them, combined by
  exclusive or: seeding stores the seed in each component and adds \<open>1 << (32 - k)\<close> to a
  value smaller than that; a step computes \<open>b = ((v << q) ^ v) >> (k - s)\<close> and
  \<open>v = ((v & mask) << s) ^ b\<close> with \<open>mask = 0xFFFFFFFF << (32 - k)\<close>.
\<close>

record taus88 =
  z1 :: "32 word"
  z2 :: "32 word"
  z3 :: "32 word"

definition lfsr_seed :: "nat \<Rightarrow> 32 word \<Rightarrow> 32 word" where
  "lfsr_seed k s0 = (if s0 < push_bit (32 - k) 1 then s0 + push_bit (32 - k) 1 else s0)"

definition lfsr_next :: "nat \<Rightarrow> nat \<Rightarrow> nat \<Rightarrow> 32 word \<Rightarrow> 32 word" where
  "lfsr_next k q s v =
     (let b = drop_bit (k - s) (push_bit q v XOR v);
          mask = push_bit (32 - k) (- 1)
      in push_bit s (v AND mask) XOR b)"

definition taus88_seed :: "32 word \<Rightarrow> taus88" where
  "taus88_seed s = \<lparr> z1 = lfsr_seed 31 s, z2 = lfsr_seed 29 s, z3 = lfsr_seed 28 s \<rparr>"

definition taus88_next :: "taus88 \<Rightarrow> 32 word \<times> taus88" where
  "taus88_next g =
     (let a = lfsr_next 31 13 12 (z1 g);
          b = lfsr_next 29 2 4 (z2 g);
          c = lfsr_next 28 3 17 (z3 g)
      in ((a XOR b) XOR c, \<lparr> z1 = a, z2 = b, z3 = c \<rparr>))"

record Random32 =
  generator :: taus88
  isSeeded :: bool

text \<open>\<open>Random32::Random32()\<close>: seeded from the clock, whose reading is the parameter
  (converted to the generator's 32-bit result type).\<close>

definition Random32_clock :: "64 word \<Rightarrow> Random32" where
  "Random32_clock now = \<lparr> generator = taus88_seed (ucast now), isSeeded = False \<rparr>"

text \<open>\<open>Random32::Random32(UInt32 seed)\<close>\<close>

definition Random32_seeded :: "32 word \<Rightarrow> Random32" where
  "Random32_seeded seed = \<lparr> generator = taus88_seed seed, isSeeded = True \<rparr>"

text \<open>\<open>Random32::Random32(const Random32&)\<close>\<close>

definition Random32_copy :: "Random32 \<Rightarrow> Random32" where
  "Random32_copy other = \<lparr> generator = generator other, isSeeded = isSeeded other \<rparr>"

text \<open>\<open>Random32::Seed\<close>\<close>

definition Seed :: "Random32 \<Rightarrow> 32 word \<Rightarrow> Random32" where
  "Seed r seed = r\<lparr> generator := taus88_seed seed, isSeeded := True \<rparr>"

text \<open>\<open>Random32::Next()\<close>\<close>

definition Next :: "Random32 \<Rightarrow> 32 word \<times> Random32" where
  "Next r = (let (v, g) = taus88_next (generator r) in (v, r\<lparr> generator := g \<rparr>))"

text \<open>The generator after \<open>k\<close> calls of \<open>Next\<close>.\<close>

fun Next_n :: "nat \<Rightarrow> Random32 \<Rightarrow> Random32" where
  "Next_n 0 r = r"
| "Next_n (Suc k) r = Next_n k (snd (Next r))"

section \<open>Buffer.h: the object and its validators\<close>

text \<open>
  The payload, \<open>_dataStart[0 .. total)\<close>, is a list of bytes; the guard regions around it
  are not modelled. \<open>_random\<close> is \<open>None\<close> for the null pointer.
\<close>

record Buffer =
  name :: string
  dataStart :: "8 word list"
  bytesPerSector :: nat
  sectorCount :: nat
  random :: "Random32 option"
  allocatedByteCount :: nat
  dataBufferSize :: nat
  usePatternMode :: bool

text \<open>What a call finds outside the object: the value of \<open>getenv("DMX_SIMULATOR_ENABLED")\<close>,
  the address \<open>new UInt8[]\<close> returns and the bytes that lie in the fresh block
  (\<open>newBytes j\<close> at payload offset \<open>j\<close>).\<close>

record host =
  dmxSimulatorEnabled :: "string option"
  newBase :: nat
  newBytes :: "nat \<Rightarrow> 8 word"

text \<open>A mutating member function either returns, leaving the object in the given state, or
  throws, leaving it in the state reached at the \<open>throw\<close>. A call that never returns is
  \<open>None\<close> of the surrounding \<open>option\<close>.\<close>

datatype outcome = Returned Buffer | Thrown error Buffer

definition GetTotalBytes :: "Buffer \<Rightarrow> nat" where
  "GetTotalBytes b = size_t (sectorCount b * bytesPerSector b)"

definition ValidateSectorRangeAndGetSectorCount :: "Buffer \<Rightarrow> nat \<Rightarrow> nat \<Rightarrow> error + nat" where
  "ValidateSectorRangeAndGetSectorCount b startSector count =
     (let n = (if count = 0 then size_t (sectorCount b + 2 ^ 64 - startSector) else count)
      in if startSector \<ge> sectorCount b then Inl OutOfRangeError
         else if size_t (startSector + n) > sectorCount b then Inl OutOfRangeError
         else Inr n)"

definition GetStartAndStopBytesFromSectors :: "Buffer \<Rightarrow> nat \<Rightarrow> nat \<Rightarrow> error + nat \<times> nat" where
  "GetStartAndStopBytesFromSectors b startSector count =
     (case ValidateSectorRangeAndGetSectorCount b startSector count of
        Inl e \<Rightarrow> Inl e
      | Inr newSectorCount \<Rightarrow>
          Inr (size_t (startSector * bytesPerSector b),
               if newSectorCount = 0 then GetTotalBytes b
               else size_t (size_t (startSector + newSectorCount) * bytesPerSector b)))"

definition ValidateByteRangeAndGetLength :: "Buffer \<Rightarrow> nat \<Rightarrow> nat \<Rightarrow> error + nat" where
  "ValidateByteRangeAndGetLength b startingOffset len =
     (let n = (if len = 0 then size_t (GetTotalBytes b + 2 ^ 64 - startingOffset) else len)
      in if startingOffset \<ge> GetTotalBytes b then Inl OutOfRangeError
         else if size_t (startingOffset + n) > GetTotalBytes b then Inl OutOfRangeError
         else Inr n)"

definition ValidateIndex :: "Buffer \<Rightarrow> nat \<Rightarrow> error option" where
  "ValidateIndex b index = (if index \<ge> GetTotalBytes b then Some OutOfRangeError else None)"

text \<open>\<open>Buffer::ValidateCounterMax\<close>: \<open>LLONG_MAX\<close> is \<open>2 ^ 63 - 1\<close>.\<close>

definition ValidateCounterMax :: "nat \<Rightarrow> error option" where
  "ValidateCounterMax maxValue = (if maxValue > 2 ^ 63 - 1 then Some OutOfRangeError else None)"

text \<open>\<open>Buffer::GetRandom\<close>: the object with its generator slot filled or reseeded, and the
  generator the returned pointer refers to.\<close>

definition GetRandom :: "64 word \<Rightarrow> Buffer \<Rightarrow> bool \<Rightarrow> 32 word \<Rightarrow> Random32 \<times> Buffer" where
  "GetRandom now b useSeed seed =
     (let r = (case random b of
                 None \<Rightarrow> if useSeed then Random32_seeded seed else Random32_clock now
               | Some r0 \<Rightarrow>
                   if useSeed then Seed r0 seed
                   else if isSeeded r0 then Seed r0 0 else r0)
      in (r, b\<lparr> random := Some r \<rparr>))"

section \<open>Byte-array primitives\<close>

text \<open>\<open>memset(d + s, v, n)\<close>, \<open>memcpy(d + dst, src + so, n)\<close> (also \<open>std::copy\<close> between
  two arrays) and the little-endian 32-bit and 64-bit stores. A list is the payload
  \<open>_dataStart[0 .. GetTotalBytes())\<close> and keeps its length: a byte the source writes at an
  index outside the payload is not a byte of the list. (The block has 4096 spare bytes
  before the payload and the alignment padding after it; past the block the source's
  behaviour is undefined.) The sources are read as they were before the call, as
  \<open>memmove\<close> does.\<close>

definition memset :: "8 word list \<Rightarrow> nat \<Rightarrow> 8 word \<Rightarrow> nat \<Rightarrow> 8 word list" where
  "memset d s v n = map (\<lambda>j. if s \<le> j \<and> j < s + n then v else d ! j) [0..<length d]"

definition memcpy :: "8 word list \<Rightarrow> nat \<Rightarrow> 8 word list \<Rightarrow> nat \<Rightarrow> nat \<Rightarrow> 8 word list" where
  "memcpy d dst src so n =
     map (\<lambda>j. if dst \<le> j \<and> j < dst + n then src ! (so + (j - dst)) else d ! j) [0..<length d]"

definition word_bytes :: "32 word \<Rightarrow> 8 word list" where
  "word_bytes w = [ucast w, ucast (drop_bit 8 w), ucast (drop_bit 16 w), ucast (drop_bit 24 w)]"

definition store32 :: "8 word list \<Rightarrow> nat \<Rightarrow> 32 word \<Rightarrow> 8 word list" where
  "store32 d i w = memcpy d (4 * i) (word_bytes w) 0 4"

definition qword_bytes :: "64 word \<Rightarrow> 8 word list" where
  "qword_bytes w = map (\<lambda>k. ucast (drop_bit (8 * k) w)) [0..<8]"

definition store64 :: "8 word list \<Rightarrow> nat \<Rightarrow> 64 word \<Rightarrow> 8 word list" where
  "store64 d i w = memcpy d (8 * i) (qword_bytes w) 0 8"

text \<open>The object representation of the generator that \<open>memcpy(genBuffer, &random.GetGen(), 12)\<close>
  reads: its three state words in declaration order.\<close>

definition taus88_bytes :: "taus88 \<Rightarrow> 8 word list" where
  "taus88_bytes g = word_bytes (z1 g) @ word_bytes (z2 g) @ word_bytes (z3 g)"

section \<open>Buffer.cpp: compression metadata\<close>

definition eFixPattern :: "8 word" where "eFixPattern = 0"
definition eIncrementingPattern :: "8 word" where "eIncrementingPattern = 1"
definition eDecrementingPattern :: "8 word" where "eDecrementingPattern = 2"
definition eRandomPattern :: "8 word" where "eRandomPattern = 3"

definition COMPRESSION_PATTERN_SIZE_IN_BYTE :: nat where "COMPRESSION_PATTERN_SIZE_IN_BYTE = 12"
definition COMPRESSION_LBA_SIZE_IN_BYTE :: nat where "COMPRESSION_LBA_SIZE_IN_BYTE = 8"
definition COMPRESSION_MAX_PATTERN_LEN :: "8 word" where "COMPRESSION_MAX_PATTERN_LEN = 8"

text \<open>One pass of the \<open>for\<close> loop of \<open>FillCompressionInfo\<close> at index \<open>i\<close>.\<close>

definition FillCompressionInfo_body :: "8 word \<Rightarrow> 8 word \<Rightarrow> nat \<Rightarrow> nat \<Rightarrow> 8 word list \<Rightarrow> 8 word list" where
  "FillCompressionInfo_body type pattenLen startByte i d =
     (let d1 = (if \<not> (d ! startByte = 0 \<and> type = eFixPattern)
                then d[i := push_bit 4 type OR pattenLen] else d)
      in if type = eFixPattern \<or> type = eIncrementingPattern \<or> type = eDecrementingPattern
         then memcpy d1 (i - COMPRESSION_PATTERN_SIZE_IN_BYTE) d1
                (i - COMPRESSION_PATTERN_SIZE_IN_BYTE - COMPRESSION_LBA_SIZE_IN_BYTE)
                (unat pattenLen)
         else d1)"

partial_function (option) FillCompressionInfo_loop ::
  "nat \<Rightarrow> 8 word \<Rightarrow> 8 word \<Rightarrow> nat \<Rightarrow> nat \<Rightarrow> nat \<Rightarrow> 8 word list \<Rightarrow> 8 word list option" where
  "FillCompressionInfo_loop bps type pattenLen startByte endByte i d =
     (if i < endByte
      then FillCompressionInfo_loop bps type pattenLen startByte endByte (i + bps)
             (FillCompressionInfo_body type pattenLen startByte i d)
      else Some d)"

declare FillCompressionInfo_loop.simps [code]

definition FillCompressionInfo :: "Buffer \<Rightarrow> 8 word \<Rightarrow> 8 word \<Rightarrow> nat \<Rightarrow> nat \<Rightarrow> Buffer option" where
  "FillCompressionInfo b type pattenLen startByte endByte =
     (if pattenLen > COMPRESSION_MAX_PATTERN_LEN then Some b
      else map_option (\<lambda>d. b\<lparr> dataStart := d \<rparr>)
             (FillCompressionInfo_loop (bytesPerSector b) type pattenLen startByte endByte
                (startByte + COMPRESSION_LBA_SIZE_IN_BYTE + COMPRESSION_PATTERN_SIZE_IN_BYTE)
                (dataStart b)))"

section \<open>Buffer.cpp: pattern fills\<close>

text \<open>\<open>Buffer::Fill(value, startSector, sectorCount)\<close>\<close>

definition Fill :: "Buffer \<Rightarrow> 8 word \<Rightarrow> nat \<Rightarrow> nat \<Rightarrow> outcome option" where
  "Fill b v startSector count =
     (case GetStartAndStopBytesFromSectors b startSector count of
        Inl e \<Rightarrow> Some (Thrown e b)
      | Inr (startByte, endByte) \<Rightarrow>
          let b1 = b\<lparr> dataStart := memset (dataStart b) startByte v (endByte - startByte) \<rparr>
          in if usePatternMode b1
             then map_option Returned (FillCompressionInfo b1 eFixPattern 1 startByte endByte)
             else Some (Returned b1))"

definition FillZeros :: "Buffer \<Rightarrow> nat \<Rightarrow> nat \<Rightarrow> outcome option" where
  "FillZeros b startSector count = Fill b 0 startSector count"

definition FillOnes :: "Buffer \<Rightarrow> nat \<Rightarrow> nat \<Rightarrow> outcome option" where
  "FillOnes b startSector count = Fill b 255 startSector count"

text \<open>\<open>Buffer::FillPattern\<close>, the doubling copier. With \<open>patternLen = 0\<close> and a non-empty
  range the source's \<open>while\<close> loop never ends.\<close>

partial_function (option) FillPattern_loop ::
  "nat \<Rightarrow> nat \<Rightarrow> nat \<Rightarrow> nat \<Rightarrow> 8 word list \<Rightarrow> 8 word list option" where
  "FillPattern_loop patterStart patternLen startByte endByte d =
     (if startByte < endByte
      then FillPattern_loop patterStart
             (if patternLen \<ge> 4096 then patternLen else patternLen * 2)
             (startByte + min patternLen (endByte - startByte)) endByte
             (memcpy d startByte d patterStart (min patternLen (endByte - startByte)))
      else Some d)"

declare FillPattern_loop.simps [code]

definition FillPattern :: "Buffer \<Rightarrow> nat \<Rightarrow> nat \<Rightarrow> nat \<Rightarrow> nat \<Rightarrow> Buffer option" where
  "FillPattern b patterStart patternLen startByte endByte =
     map_option (\<lambda>d. b\<lparr> dataStart := d \<rparr>)
       (FillPattern_loop patterStart patternLen startByte endByte (dataStart b))"

text \<open>The first loop of \<open>FillBytes\<close>: \<open>GetDataStart()[i] = list[(i - startByte) % byteCount]\<close>.\<close>

function FillBytes_loop :: "8 word list \<Rightarrow> nat \<Rightarrow> nat \<Rightarrow> nat \<Rightarrow> 8 word list \<Rightarrow> 8 word list" where
  "FillBytes_loop list startByte i stop d =
     (if i < stop
      then FillBytes_loop list startByte (i + 1) stop
             (d[i := list ! ((i - startByte) mod length list)])
      else d)"
  by pat_completeness auto
termination
  by (relation "measure (\<lambda>(list, startByte, i, stop, d). stop - i)") auto

declare FillBytes_loop.simps [simp del]

definition FillBytes :: "Buffer \<Rightarrow> 8 word list \<Rightarrow> nat \<Rightarrow> nat \<Rightarrow> outcome option" where
  "FillBytes b list startSector count =
     (let byteCount = length list
      in if byteCount \<noteq> 0
         then (case GetStartAndStopBytesFromSectors b startSector count of
                 Inl e \<Rightarrow> Some (Thrown e b)
               | Inr (startByte, endByte) \<Rightarrow>
                   let patternEnd = startByte + byteCount;
                       b1 = b\<lparr> dataStart :=
                              FillBytes_loop list startByte startByte (min patternEnd endByte)
                                (dataStart b) \<rparr>
                   in Option.bind
                        (if endByte > patternEnd
                         then FillPattern b1 startByte byteCount patternEnd endByte
                         else Some b1)
                        (\<lambda>b2. if usePatternMode b2
                              then map_option Returned
                                     (FillCompressionInfo b2 eFixPattern (of_nat byteCount)
                                        startByte endByte)
                              else Some (Returned b2)))
         else Some (Returned b))"

text \<open>The first loop of \<open>FillIncrementing\<close>: \<open>_dataStart[i] = startingValue++\<close>.\<close>

function FillIncrementing_loop :: "nat \<Rightarrow> nat \<Rightarrow> 8 word \<Rightarrow> 8 word list \<Rightarrow> 8 word list" where
  "FillIncrementing_loop i stop startingValue d =
     (if i < stop
      then FillIncrementing_loop (i + 1) stop (startingValue + 1) (d[i := startingValue])
      else d)"
  by pat_completeness auto
termination
  by (relation "measure (\<lambda>(i, stop, startingValue, d). stop - i)") auto

declare FillIncrementing_loop.simps [simp del]

definition FillIncrementing :: "Buffer \<Rightarrow> 8 word \<Rightarrow> nat \<Rightarrow> nat \<Rightarrow> outcome option" where
  "FillIncrementing b startingValue startSector count =
     (case GetStartAndStopBytesFromSectors b startSector count of
        Inl e \<Rightarrow> Some (Thrown e b)
      | Inr (startByte, endByte) \<Rightarrow>
          let b1 = b\<lparr> dataStart :=
                     FillIncrementing_loop startByte (startByte + bytesPerSector b)
                       startingValue (dataStart b) \<rparr>
          in Option.bind
               (if endByte > startByte + bytesPerSector b1
                then FillPattern b1 startByte (bytesPerSector b1)
                       (startByte + bytesPerSector b1) endByte
                else Some b1)
               (\<lambda>b2. if usePatternMode b2
                     then map_option Returned
                            (FillCompressionInfo b2 eIncrementingPattern 1 startByte endByte)
                     else Some (Returned b2)))"

text \<open>The first loop of \<open>FillDecrementing\<close>: \<open>_dataStart[i] = startingValue--\<close>.\<close>

function FillDecrementing_loop :: "nat \<Rightarrow> nat \<Rightarrow> 8 word \<Rightarrow> 8 word list \<Rightarrow> 8 word list" where
  "FillDecrementing_loop i stop startingValue d =
     (if i < stop
      then FillDecrementing_loop (i + 1) stop (startingValue - 1) (d[i := startingValue])
      else d)"
  by pat_completeness auto
termination
  by (relation "measure (\<lambda>(i, stop, startingValue, d). stop - i)") auto

declare FillDecrementing_loop.simps [simp del]

definition FillDecrementing :: "Buffer \<Rightarrow> 8 word \<Rightarrow> nat \<Rightarrow> nat \<Rightarrow> outcome option" where
  "FillDecrementing b startingValue startSector count =
     (case GetStartAndStopBytesFromSectors b startSector count of
        Inl e \<Rightarrow> Some (Thrown e b)
      | Inr (startByte, endByte) \<Rightarrow>
          let b1 = b\<lparr> dataStart :=
                     FillDecrementing_loop startByte (startByte + bytesPerSector b)
                       startingValue (dataStart b) \<rparr>
          in Option.bind
               (if endByte > startByte + bytesPerSector b1
                then FillPattern b1 startByte (bytesPerSector b1)
                       (startByte + bytesPerSector b1) endByte
                else Some b1)
               (\<lambda>b2. if usePatternMode b2
                     then map_option Returned
                            (FillCompressionInfo b2 eDecrementingPattern 1 startByte endByte)
                     else Some (Returned b2)))"

section \<open>Buffer.cpp: random fills\<close>

text \<open>
  The word loop of \<open>FillSectorsWithRandomData\<close> over \<open>int32Ptr[i]\<close>, with the local
  \<open>genBuffer\<close> and the generator passed by reference as loop state. The callers have
  checked \<open>bytesPerSector % 4 = 0\<close>, so for a sector size of at least one byte the divisor
  \<open>_bytesPerSector / 4\<close> is not zero.
\<close>

function FillSectorsWithRandomData_loop ::
  "bool \<Rightarrow> nat \<Rightarrow> nat \<Rightarrow> nat \<Rightarrow> 8 word list \<Rightarrow> Random32 \<Rightarrow> 8 word list \<Rightarrow> Random32 \<times> 8 word list" where
  "FillSectorsWithRandomData_loop pm bps i stop genBuffer r d =
     (if i < stop
      then let sectorByteIndex = i mod (bps div 4);
               genBuffer1 = (if pm \<and> sectorByteIndex = 0
                             then memcpy genBuffer 0 (taus88_bytes (generator r)) 0
                                    (min 12 COMPRESSION_PATTERN_SIZE_IN_BYTE)
                             else genBuffer);
               d1 = (if pm \<and> sectorByteIndex \<noteq> 0 \<and> sectorByteIndex = 6
                     then memcpy d (4 * (i - 4)) genBuffer1 0
                            (min COMPRESSION_PATTERN_SIZE_IN_BYTE 16)
                     else d)
           in FillSectorsWithRandomData_loop pm bps (i + 1) stop genBuffer1
                (snd (Next r)) (store32 d1 i (fst (Next r)))
      else (r, d))"
  by pat_completeness auto
termination
  by (relation "measure (\<lambda>(pm, bps, i, stop, genBuffer, r, d). stop - i)") auto

declare FillSectorsWithRandomData_loop.simps [simp del]

text \<open>\<open>genBuffer\<close> is an uninitialised local; it is written at the first index of the range,
  a sector start, before it is read. The result is the generator after the fill and the
  object, or the validator's error.\<close>

definition FillSectorsWithRandomData ::
  "Buffer \<Rightarrow> Random32 \<Rightarrow> nat \<Rightarrow> nat \<Rightarrow> (error + Random32 \<times> Buffer) option" where
  "FillSectorsWithRandomData b r startSector count =
     (case GetStartAndStopBytesFromSectors b startSector count of
        Inl e \<Rightarrow> Some (Inl e)
      | Inr (startByte, endByte) \<Rightarrow>
          let res = FillSectorsWithRandomData_loop (usePatternMode b) (bytesPerSector b)
                      (startByte div 4) (endByte div 4)
                      (replicate COMPRESSION_PATTERN_SIZE_IN_BYTE 0) r (dataStart b);
              b1 = b\<lparr> dataStart := snd res \<rparr>
          in if usePatternMode b1
             then map_option (\<lambda>b2. Inr (fst res, b2))
                    (FillCompressionInfo b1 eRandomPattern 0 startByte endByte)
             else Some (Inr (fst res, b1)))"

text \<open>\<open>Buffer::FillRandomImpl\<close>: \<open>r\<close> refers to the object's own generator, which therefore
  ends in the state the fill leaves.\<close>

definition FillRandomImpl :: "64 word \<Rightarrow> Buffer \<Rightarrow> nat \<Rightarrow> nat \<Rightarrow> bool \<Rightarrow> 32 word \<Rightarrow> outcome option" where
  "FillRandomImpl now b startSector count useSeed seed =
     (if bytesPerSector b mod 4 \<noteq> 0 then Some (Thrown RuntimeError b)
      else let rb = GetRandom now b useSeed seed
           in map_option
                (\<lambda>res. case res of
                     Inl e \<Rightarrow> Thrown e (snd rb)
                   | Inr (r1, b2) \<Rightarrow> Returned (b2\<lparr> random := Some r1 \<rparr>))
                (FillSectorsWithRandomData (snd rb) (fst rb) startSector count))"

definition FillRandom :: "64 word \<Rightarrow> Buffer \<Rightarrow> nat \<Rightarrow> nat \<Rightarrow> outcome option" where
  "FillRandom now b startSector count = FillRandomImpl now b startSector count False 0"

definition FillRandomSeeded :: "64 word \<Rightarrow> Buffer \<Rightarrow> 32 word \<Rightarrow> nat \<Rightarrow> nat \<Rightarrow> outcome option" where
  "FillRandomSeeded now b seed startSector count =
     FillRandomImpl now b startSector count True seed"

text \<open>The sector loop of \<open>FillRandomSeededBySector\<close>; \<open>random\<close> is the local copy of the
  generator, reseeded with \<open>(UInt32)(seed + i - startSector)\<close> for each sector.\<close>

function FillRandomSeededBySector_loop ::
  "Buffer \<Rightarrow> Random32 \<Rightarrow> 32 word \<Rightarrow> nat \<Rightarrow> nat \<Rightarrow> nat \<Rightarrow> outcome option" where
  "FillRandomSeededBySector_loop b rnd seed startSector i stop =
     (if i < stop
      then (case FillSectorsWithRandomData b (Seed rnd (seed + of_nat i - of_nat startSector)) i 1 of
              None \<Rightarrow> None
            | Some (Inl e) \<Rightarrow> Some (Thrown e b)
            | Some (Inr (rnd1, b1)) \<Rightarrow>
                FillRandomSeededBySector_loop b1 rnd1 seed startSector (i + 1) stop)
      else Some (Returned b))"
  by pat_completeness auto
termination
  by (relation "measure (\<lambda>(b, rnd, seed, startSector, i, stop). stop - i)") auto

declare FillRandomSeededBySector_loop.simps [simp del]

definition FillRandomSeededBySector ::
  "64 word \<Rightarrow> Buffer \<Rightarrow> 32 word \<Rightarrow> nat \<Rightarrow> nat \<Rightarrow> outcome option" where
  "FillRandomSeededBySector now b seed startSector count =
     (if bytesPerSector b mod 4 \<noteq> 0 then Some (Thrown RuntimeError b)
      else (case ValidateSectorRangeAndGetSectorCount b startSector count of
              Inl e \<Rightarrow> Some (Thrown e b)
            | Inr n \<Rightarrow>
                (case ValidateCounterMax (size_t (startSector + n)) of
                   Some e \<Rightarrow> Some (Thrown e b)
                 | None \<Rightarrow>
                     let rb = GetRandom now b True seed
                     in (case ValidateCounterMax (size_t (startSector + n)) of
                           Some e \<Rightarrow> Some (Thrown e (snd rb))
                         | None \<Rightarrow>
                             FillRandomSeededBySector_loop (snd rb) (Random32_copy (fst rb))
                               seed startSector startSector (size_t (startSector + n))))))"

section \<open>Buffer.cpp: comparison\<close>

text \<open>\<open>memcmp\<close> on two byte sequences of the same length: the sign of the first differing
  pair, bytes compared unsigned.\<close>

fun memcmp :: "8 word list \<Rightarrow> 8 word list \<Rightarrow> int" where
  "memcmp (x # xs) (y # ys) = (if x = y then memcmp xs ys else if x < y then - 1 else 1)"
| "memcmp xs ys = 0"

text \<open>The scan of \<open>CompareTo\<close> for the first differing index; \<open>offset\<close> and \<open>offset2\<close>
  start as 0 and are assigned at the \<open>break\<close>.\<close>

function CompareTo_scan ::
  "8 word list \<Rightarrow> nat \<Rightarrow> 8 word list \<Rightarrow> nat \<Rightarrow> nat \<Rightarrow> nat \<Rightarrow> nat \<times> nat" where
  "CompareTo_scan d startByte d2 startByte2 i bytesToCompare =
     (if i < bytesToCompare
      then if d ! (startByte + i) \<noteq> d2 ! (startByte2 + i)
           then (startByte + i, startByte2 + i)
           else CompareTo_scan d startByte d2 startByte2 (i + 1) bytesToCompare
      else (0, 0))"
  by pat_completeness auto
termination
  by (relation "measure (\<lambda>(d, startByte, d2, startByte2, i, n). n - i)") auto

declare CompareTo_scan.simps [simp del]

text \<open>\<open>Buffer::CompareTo(buffer, startSector, startSector2, sectorCount)\<close>; it changes
  neither object.\<close>

definition CompareTo :: "Buffer \<Rightarrow> Buffer \<Rightarrow> nat \<Rightarrow> nat \<Rightarrow> nat \<Rightarrow> error + CompareResult" where
  "CompareTo b buffer startSector startSector2 count =
     (case GetStartAndStopBytesFromSectors b startSector count of
        Inl e \<Rightarrow> Inl e
      | Inr (startByte, endByte) \<Rightarrow>
          (case GetStartAndStopBytesFromSectors buffer startSector2 count of
             Inl e \<Rightarrow> Inl e
           | Inr (startByte2, endByte2) \<Rightarrow>
               if count \<noteq> 0 \<and> endByte2 - startByte2 \<noteq> endByte - startByte
               then Inl ArgumentError
               else let bytesToCompare =
                          (if count = 0 then min (endByte - startByte) (endByte2 - startByte2)
                           else endByte - startByte);
                        result = memcmp (take bytesToCompare (drop startByte (dataStart b)))
                                   (take bytesToCompare (drop startByte2 (dataStart buffer)));
                        offs = (if result \<noteq> 0
                                then CompareTo_scan (dataStart b) startByte (dataStart buffer)
                                       startByte2 0 bytesToCompare
                                else (0, 0))
                    in if result = 0 then Inr CompareResult_equal
                       else Inr (CompareResult_unequal (fst offs)
                                   (dataStart b ! fst offs) (dataStart buffer ! snd offs))))"

section \<open>Buffer.cpp: construction, copy and resize\<close>

text \<open>C's \<open>atoi\<close> on the variable's text. The C library computes it as
  \<open>(int) strtol(s, NULL, 10)\<close>: leading white space, an optional sign, then decimal digits up
  to the first other character; \<open>strtol\<close> saturates at \<open>LONG_MIN\<close> and \<open>LONG_MAX\<close> (64 bits)
  and the conversion to \<open>int\<close> keeps the low 32 bits in two's complement, so that
  \<open>4294967296\<close> reads as 0. (The C standard itself leaves \<open>atoi\<close> undefined when the value
  does not fit an \<open>int\<close>.)\<close>

definition isspace :: "char \<Rightarrow> bool" where
  "isspace c = (c \<in> set [CHR 0x20, CHR 0x09, CHR 0x0A, CHR 0x0B, CHR 0x0C, CHR 0x0D])"

definition isdigit :: "char \<Rightarrow> bool" where
  "isdigit c = (48 \<le> (of_char c :: nat) \<and> (of_char c :: nat) \<le> 57)"

fun atoi_digits :: "int \<Rightarrow> string \<Rightarrow> int" where
  "atoi_digits acc [] = acc"
| "atoi_digits acc (c # cs) =
     (if isdigit c then atoi_digits (acc * 10 + (of_char c - 48)) cs else acc)"

definition strtol :: "string \<Rightarrow> int" where
  "strtol s =
     (let v = (case dropWhile isspace s of
                 [] \<Rightarrow> 0
               | c # cs \<Rightarrow>
                   if c = CHR ''-'' then - atoi_digits 0 cs
                   else if c = CHR ''+'' then atoi_digits 0 cs
                   else atoi_digits 0 (c # cs))
      in if v > 2 ^ 63 - 1 then 2 ^ 63 - 1 else if v < - (2 ^ 63) then - (2 ^ 63) else v)"

definition atoi :: "string \<Rightarrow> int" where
  "atoi s = sint (word_of_int (strtol s) :: 32 word)"

text \<open>\<open>Buffer::CalculateTotalBytesToAllocate\<close>\<close>

definition CalculateTotalBytesToAllocate :: "Buffer \<Rightarrow> nat \<Rightarrow> Buffer" where
  "CalculateTotalBytesToAllocate b dataByteCount =
     (let dataByteCountLowBits = dataByteCount mod 4096;
          alignmentOffset = (if dataByteCountLowBits = 0 then 0 else 4096 - dataByteCountLowBits);
          b1 = b\<lparr> dataBufferSize := size_t (dataByteCount + alignmentOffset) \<rparr>
      in b1\<lparr> allocatedByteCount := size_t (dataBufferSize b1 + 4095 + 4096) \<rparr>)"

text \<open>\<open>Buffer::CalculateDataStart\<close> on the address of the fresh block: the address of the
  payload, or the error of the sanity check.\<close>

definition CalculateDataStart :: "Buffer \<Rightarrow> nat \<Rightarrow> nat \<Rightarrow> error + nat" where
  "CalculateDataStart b data dataByteCount =
     (let dataStartLowBits = data mod 4096;
          alignmentOffset = (if dataStartLowBits = 0 then 0 else 4096 - dataStartLowBits);
          dataStart1 = data + alignmentOffset + 4096
      in if dataStart1 + dataByteCount > data + allocatedByteCount b then Inl RuntimeError
         else Inr dataStart1)"

text \<open>\<open>Buffer::Initialize\<close>. The payload of the fresh block holds whatever the allocator left
  there until \<open>Fill(0, 0, sectorCount)\<close> overwrites it.\<close>

definition Initialize :: "host \<Rightarrow> Buffer \<Rightarrow> nat \<Rightarrow> nat \<Rightarrow> outcome option" where
  "Initialize h this sectorCount1 bytesPerSector1 =
     (let t1 = this\<lparr> random := None,
                     usePatternMode := (case dmxSimulatorEnabled h of
                                          None \<Rightarrow> False
                                        | Some s \<Rightarrow> atoi s \<noteq> 0) \<rparr>
      in if sectorCount1 < 1 then Some (Thrown ArgumentError t1)
         else if bytesPerSector1 < 1 then Some (Thrown ArgumentError t1)
         else let t2 = t1\<lparr> name := [], bytesPerSector := bytesPerSector1,
                           sectorCount := sectorCount1 \<rparr>;
                  t3 = CalculateTotalBytesToAllocate t2 (GetTotalBytes t2)
              in (case CalculateDataStart t3 (newBase h) (dataBufferSize t3) of
                    Inl e \<Rightarrow> Some (Thrown e t3)
                  | Inr a \<Rightarrow>
                      Fill (t3\<lparr> dataStart := map (newBytes h) [0..<GetTotalBytes t3] \<rparr>)
                        0 0 sectorCount1))"

text \<open>The members before a constructor body runs: an empty \<open>std::string\<close>,
  \<open>_allocatedByteCount(0)\<close>; the others are assigned by \<open>Initialize\<close> before any use.\<close>

definition Buffer_unset :: Buffer where
  "Buffer_unset =
     \<lparr> name = [], dataStart = [], bytesPerSector = 0, sectorCount = 0, random = None,
       allocatedByteCount = 0, dataBufferSize = 0, usePatternMode = False \<rparr>"

definition DEFAULT_BYTES_PER_SECTOR :: nat where "DEFAULT_BYTES_PER_SECTOR = 512"
definition DEFAULT_SECTOR_COUNT :: nat where "DEFAULT_SECTOR_COUNT = 65536"

text \<open>\<open>Buffer::Buffer(sectorCount, bytesPerSector)\<close>\<close>

definition Buffer_new :: "host \<Rightarrow> nat \<Rightarrow> nat \<Rightarrow> outcome option" where
  "Buffer_new h sectorCount1 bytesPerSector1 =
     Initialize h Buffer_unset sectorCount1 bytesPerSector1"

text \<open>\<open>Buffer::Buffer(const Buffer&)\<close>: the new object, or the error of
  \<open>CalculateDataStart\<close>. \<open>_name\<close> is not assigned and stays the empty string of its
  default construction.\<close>

definition Buffer_copy :: "host \<Rightarrow> Buffer \<Rightarrow> error + Buffer" where
  "Buffer_copy h buffer =
     (let t = \<lparr> name = [], dataStart = [], bytesPerSector = bytesPerSector buffer,
                sectorCount = sectorCount buffer,
                random = (case random buffer of
                            None \<Rightarrow> None
                          | Some r \<Rightarrow> Some (Random32_copy r)),
                allocatedByteCount = allocatedByteCount buffer,
                dataBufferSize = dataBufferSize buffer,
                usePatternMode = usePatternMode buffer \<rparr>
      in (case CalculateDataStart t (newBase h) (dataBufferSize t) of
            Inl e \<Rightarrow> Inl e
          | Inr a \<Rightarrow>
              Inr (t\<lparr> dataStart :=
                       memcpy (map (newBytes h) [0..<GetTotalBytes t]) 0 (dataStart buffer) 0
                         (GetTotalBytes buffer) \<rparr>)))"

text \<open>\<open>Buffer::Resize(sectorCount, bytesPerSector)\<close>. When \<open>Initialize\<close> throws, the old
  block is already freed; the thrown state keeps the other members as they are then.\<close>

definition Resize :: "host \<Rightarrow> Buffer \<Rightarrow> nat \<Rightarrow> nat \<Rightarrow> outcome option" where
  "Resize h b sectorCount1 bytesPerSector1 =
     (let oldTotalBytes = GetTotalBytes b;
          newTotalBytes = size_t (sectorCount1 * bytesPerSector1);
          bytesToPreserve = min oldTotalBytes newTotalBytes;
          oldData = (if bytesToPreserve > 0 then take bytesToPreserve (dataStart b) else []);
          b1 = b\<lparr> random := None \<rparr>
      in (case Initialize h b1 sectorCount1 bytesPerSector1 of
            None \<Rightarrow> None
          | Some (Thrown e t) \<Rightarrow> Some (Thrown e t)
          | Some (Returned b2) \<Rightarrow>
              Some (Returned
                (if bytesToPreserve > 0
                 then b2\<lparr> dataStart := memcpy (dataStart b2) 0 oldData 0 (length oldData) \<rparr>
                 else b2))))"

text \<open>\<open>Buffer::SetName\<close>, \<open>Buffer::SetByte\<close>\<close>

definition SetName :: "Buffer \<Rightarrow> string \<Rightarrow> Buffer" where
  "SetName b n = b\<lparr> name := n \<rparr>"

definition SetByte :: "Buffer \<Rightarrow> nat \<Rightarrow> 8 word \<Rightarrow> outcome" where
  "SetByte b index v =
     (case ValidateIndex b index of
        Some e \<Rightarrow> Thrown e b
      | None \<Rightarrow> Returned (b\<lparr> dataStart := (dataStart b)[index := v] \<rparr>))"

text \<open>The word, dword and qword setters. Each validates the index of its last byte only,
  \<open>index + k\<close> computed in \<open>size_t\<close>, and then stores byte by byte.\<close>

definition SetWord :: "Buffer \<Rightarrow> nat \<Rightarrow> 16 word \<Rightarrow> outcome" where
  "SetWord b index v =
     (case ValidateIndex b (size_t (index + 1)) of
        Some e \<Rightarrow> Thrown e b
      | None \<Rightarrow>
          Returned (b\<lparr> dataStart :=
            (dataStart b)[index := ucast (v AND 0xFF),
                          size_t (index + 1) := ucast (drop_bit 8 v)] \<rparr>))"

definition SetWordBigEndian :: "Buffer \<Rightarrow> nat \<Rightarrow> 16 word \<Rightarrow> outcome" where
  "SetWordBigEndian b index v =
     (case ValidateIndex b (size_t (index + 1)) of
        Some e \<Rightarrow> Thrown e b
      | None \<Rightarrow>
          Returned (b\<lparr> dataStart :=
            (dataStart b)[index := ucast (drop_bit 8 v),
                          size_t (index + 1) := ucast (v AND 0xFF)] \<rparr>))"

definition SetDWord :: "Buffer \<Rightarrow> nat \<Rightarrow> 32 word \<Rightarrow> outcome" where
  "SetDWord b index v =
     (case ValidateIndex b (size_t (index + 3)) of
        Some e \<Rightarrow> Thrown e b
      | None \<Rightarrow>
          Returned (b\<lparr> dataStart :=
            (dataStart b)[index := ucast (v AND 0xFF),
                          size_t (index + 1) := ucast (drop_bit 8 v),
                          size_t (index + 2) := ucast (drop_bit 16 v),
                          size_t (index + 3) := ucast (drop_bit 24 v)] \<rparr>))"

definition SetDWordBigEndian :: "Buffer \<Rightarrow> nat \<Rightarrow> 32 word \<Rightarrow> outcome" where
  "SetDWordBigEndian b index v =
     (case ValidateIndex b (size_t (index + 3)) of
        Some e \<Rightarrow> Thrown e b
      | None \<Rightarrow>
          Returned (b\<lparr> dataStart :=
            (dataStart b)[index := ucast (drop_bit 24 v),
                          size_t (index + 1) := ucast (drop_bit 16 v),
                          size_t (index + 2) := ucast (drop_bit 8 v),
                          size_t (index + 3) := ucast (v AND 0xFF)] \<rparr>))"

definition SetQWord :: "Buffer \<Rightarrow> nat \<Rightarrow> 64 word \<Rightarrow> outcome" where
  "SetQWord b index v =
     (case ValidateIndex b (size_t (index + 7)) of
        Some e \<Rightarrow> Thrown e b
      | None \<Rightarrow>
          Returned (b\<lparr> dataStart :=
            (dataStart b)[index := ucast v,
                          size_t (index + 1) := ucast (drop_bit 8 v),
                          size_t (index + 2) := ucast (drop_bit 16 v),
                          size_t (index + 3) := ucast (drop_bit 24 v),
                          size_t (index + 4) := ucast (drop_bit 32 v),
                          size_t (index + 5) := ucast (drop_bit 40 v),
                          size_t (index + 6) := ucast (drop_bit 48 v),
                          size_t (index + 7) := ucast (drop_bit 56 v)] \<rparr>))"

definition SetQWordBigEndian :: "Buffer \<Rightarrow> nat \<Rightarrow> 64 word \<Rightarrow> outcome" where
  "SetQWordBigEndian b index v =
     (case ValidateIndex b (size_t (index + 7)) of
        Some e \<Rightarrow> Thrown e b
      | None \<Rightarrow>
          Returned (b\<lparr> dataStart :=
            (dataStart b)[index := ucast (drop_bit 56 v),
                          size_t (index + 1) := ucast (drop_bit 48 v),
                          size_t (index + 2) := ucast (drop_bit 40 v),
                          size_t (index + 3) := ucast (drop_bit 32 v),
                          size_t (index + 4) := ucast (drop_bit 24 v),
                          size_t (index + 5) := ucast (drop_bit 16 v),
                          size_t (index + 6) := ucast (drop_bit 8 v),
                          size_t (index + 7) := ucast v] \<rparr>))"

text \<open>\<open>Buffer::SetBytes\<close> and \<open>Buffer::SetString\<close>: the range is validated, then copied.\<close>

definition SetBytes :: "Buffer \<Rightarrow> nat \<Rightarrow> 8 word list \<Rightarrow> outcome" where
  "SetBytes b startingOffset v =
     (case ValidateByteRangeAndGetLength b startingOffset (length v) of
        Inl e \<Rightarrow> Thrown e b
      | Inr n \<Rightarrow>
          Returned (b\<lparr> dataStart := memcpy (dataStart b) startingOffset v 0 (length v) \<rparr>))"

definition SetString :: "Buffer \<Rightarrow> nat \<Rightarrow> string \<Rightarrow> outcome" where
  "SetString b startingOffset v =
     (case ValidateByteRangeAndGetLength b startingOffset (length v) of
        Inl e \<Rightarrow> Thrown e b
      | Inr n \<Rightarrow>
          Returned (b\<lparr> dataStart :=
            memcpy (dataStart b) startingOffset (map of_char v) 0 (length v) \<rparr>))"

text \<open>\<open>Buffer::FillAddressOverlay\<close>. The loop counter \<open>i\<close> is an \<open>Int64\<close>, compared signed
  with \<open>(Int64) end64bitOffset\<close>; \<open>i += jump\<close>, \<open>i - start64bitOffset\<close> and \<open>i + jump - 1\<close>
  are computed on 64 bits. With \<open>jump = 0\<close> the loop would not advance.\<close>

partial_function (option) FillAddressOverlay_loop ::
  "64 word \<Rightarrow> 64 word \<Rightarrow> 64 word \<Rightarrow> 64 word \<Rightarrow> 64 word \<Rightarrow> 8 word list \<Rightarrow> 8 word list option" where
  "FillAddressOverlay_loop startingValue jump start64bitOffset end64bitOffset i d =
     (if i <s end64bitOffset
      then FillAddressOverlay_loop startingValue jump start64bitOffset end64bitOffset (i + jump)
             (store64
                (store64 d (unat i) (startingValue + (i - start64bitOffset) div jump))
                (unat (i + jump - 1)) (startingValue + (i - start64bitOffset) div jump))
      else Some d)"

declare FillAddressOverlay_loop.simps [code]

definition FillAddressOverlay :: "Buffer \<Rightarrow> 64 word \<Rightarrow> nat \<Rightarrow> nat \<Rightarrow> outcome option" where
  "FillAddressOverlay b startingValue startSector count =
     (case ValidateSectorRangeAndGetSectorCount b startSector count of
        Inl e \<Rightarrow> Some (Thrown e b)
      | Inr sectorCount1 \<Rightarrow>
          let jump = bytesPerSector b div 8;
              start64bitOffset = size_t (startSector * jump);
              end64bitOffset = size_t (size_t (startSector + sectorCount1) * jump)
          in (case ValidateCounterMax end64bitOffset of
                Some e \<Rightarrow> Some (Thrown e b)
              | None \<Rightarrow>
                  map_option (\<lambda>d. Returned (b\<lparr> dataStart := d \<rparr>))
                    (FillAddressOverlay_loop startingValue (of_nat jump)
                       (of_nat start64bitOffset) (of_nat end64bitOffset)
                       (of_nat start64bitOffset) (dataStart b))))"

text \<open>\<open>Buffer::CopyTo(destinationBuffer, startSector, destStartSector, sectorCount)\<close>: the
  calling object is only read; the result is the destination, or the error of the
  validator. The range is validated in the calling object only, and the destination offset
  is computed with the calling object's sector size.\<close>

definition CopyTo :: "Buffer \<Rightarrow> Buffer \<Rightarrow> nat \<Rightarrow> nat \<Rightarrow> nat \<Rightarrow> error + Buffer" where
  "CopyTo b destinationBuffer startSector destStartSector count =
     (case GetStartAndStopBytesFromSectors b startSector count of
        Inl e \<Rightarrow> Inl e
      | Inr (startByte, endByte) \<Rightarrow>
          let destStartByte = size_t (destStartSector * bytesPerSector b);
              bytesToCopy = size_t (endByte + 2 ^ 64 - startByte)
          in Inr (destinationBuffer\<lparr> dataStart :=
                    memcpy (dataStart destinationBuffer) destStartByte (dataStart b) startByte
                      bytesToCopy \<rparr>))"

text \<open>\<open>Buffer::CopyFrom(sourceBuffer, startSector, srcStartSector, sectorCount)\<close>\<close>

definition CopyFrom :: "Buffer \<Rightarrow> Buffer \<Rightarrow> nat \<Rightarrow> nat \<Rightarrow> nat \<Rightarrow> outcome" where
  "CopyFrom b sourceBuffer startSector srcStartSector count =
     (case GetStartAndStopBytesFromSectors sourceBuffer srcStartSector count of
        Inl e \<Rightarrow> Thrown e b
      | Inr (srcStartByte, srcEndByte) \<Rightarrow>
          let destStartByte = size_t (startSector * bytesPerSector b);
              bytesToCopy = size_t (srcEndByte + 2 ^ 64 - srcStartByte)
          in Returned (b\<lparr> dataStart :=
               memcpy (dataStart b) destStartByte (dataStart sourceBuffer) srcStartByte
                 bytesToCopy \<rparr>))"

text \<open>\<open>Buffer::IsAllZeros\<close> and \<open>Buffer::CalculateChecksumByte\<close>, the two member functions
  that are not \<open>const\<close> and only read.\<close>

definition IsAllZeros :: "Buffer \<Rightarrow> bool" where
  "IsAllZeros b =
     (if dataStart b ! 0 = 0
      then memcmp (take (size_t (GetTotalBytes b + 2 ^ 64 - 1)) (dataStart b))
             (take (size_t (GetTotalBytes b + 2 ^ 64 - 1)) (drop 1 (dataStart b))) = 0
      else False)"

definition CalculateChecksumByte :: "Buffer \<Rightarrow> nat \<Rightarrow> nat \<Rightarrow> error + 8 word" where
  "CalculateChecksumByte b startByte byteCount =
     (if byteCount = 0 then Inl ArgumentError
      else if size_t (startByte + byteCount) > GetTotalBytes b then Inl OutOfRangeError
      else Inr (NOT (fold (\<lambda>i result. result + dataStart b ! i)
                       [startByte ..< size_t (startByte + byteCount)] 0) + 1))"

section \<open>Well-formed objects and calls\<close>

text \<open>What every constructed object satisfies: both dimensions at least one (enforced by
  \<open>Initialize\<close>), a payload of exactly \<open>sectorCount * bytesPerSector\<close> bytes, and a total
  that an allocation can hold (fewer than \<open>2 ^ 63\<close> bytes).\<close>

definition Buffer_inv :: "Buffer \<Rightarrow> bool" where
  "Buffer_inv b =
     (1 \<le> sectorCount b \<and> 1 \<le> bytesPerSector b \<and>
      sectorCount b * bytesPerSector b < 2 ^ 63 \<and>
      length (dataStart b) = sectorCount b * bytesPerSector b)"

text \<open>A sector range the validator accepts: \<open>count = 0\<close> stands for the sectors up to the
  end.\<close>

definition valid_range :: "Buffer \<Rightarrow> nat \<Rightarrow> nat \<Rightarrow> bool" where
  "valid_range b startSector count =
     (startSector < sectorCount b \<and> startSector + count \<le> sectorCount b)"

definition range_count :: "Buffer \<Rightarrow> nat \<Rightarrow> nat \<Rightarrow> nat" where
  "range_count b startSector count = (if count = 0 then sectorCount b - startSector else count)"

text \<open>The value \<open>Initialize\<close> assigns to \<open>_usePatternMode\<close>, and the object a call
  leaves behind, whether it returned or threw.\<close>

definition getenv_flag :: "host \<Rightarrow> bool" where
  "getenv_flag h = (case dmxSimulatorEnabled h of None \<Rightarrow> False | Some s \<Rightarrow> atoi s \<noteq> 0)"

fun state_of :: "outcome \<Rightarrow> Buffer" where
  "state_of (Returned b) = b"
| "state_of (Thrown e b) = b"

text \<open>\<open>frame b b'\<close>: \<open>b'\<close> differs from \<open>b\<close> at most in the payload bytes and the
  generator.\<close>

definition frame :: "Buffer \<Rightarrow> Buffer \<Rightarrow> bool" where
  "frame b b' = (b' = b\<lparr> dataStart := dataStart b', random := random b' \<rparr>)"

text \<open>The object a successful \<open>Buffer(sectorCount, bytesPerSector)\<close> leaves (see
  \<open>Buffer_new_valid\<close> below): a zero payload, no generator, an empty name, and the
  pattern-mode flag read from the environment.\<close>

definition zero_buffer :: "nat \<Rightarrow> nat \<Rightarrow> bool \<Rightarrow> Buffer" where
  "zero_buffer sc bps pm =
     \<lparr> name = [], dataStart = replicate (sc * bps) 0, bytesPerSector = bps, sectorCount = sc,
       random = None,
       allocatedByteCount =
         sc * bps + (if (sc * bps) mod 4096 = 0 then 0 else 4096 - (sc * bps) mod 4096)
           + 4095 + 4096,
       dataBufferSize =
         sc * bps + (if (sc * bps) mod 4096 = 0 then 0 else 4096 - (sc * bps) mod 4096),
       usePatternMode = pm \<rparr>"

text \<open>The bytes a comparison looks at: \<open>len\<close> bytes of the payload from \<open>startByte\<close>,
  and the number of bytes \<open>CompareTo\<close> compares for a sector count \<open>n\<close> (0: the shorter
  of the two remainders).\<close>

definition span :: "Buffer \<Rightarrow> nat \<Rightarrow> nat \<Rightarrow> 8 word list" where
  "span b startByte len = take len (drop startByte (dataStart b))"

definition compare_length :: "Buffer \<Rightarrow> Buffer \<Rightarrow> nat \<Rightarrow> nat \<Rightarrow> nat \<Rightarrow> nat" where
  "compare_length a b s1 s2 n =
     (if n = 0
      then min ((sectorCount a - s1) * bytesPerSector a) ((sectorCount b - s2) * bytesPerSector b)
      else n * bytesPerSector a)"

text \<open>
  The calls a client can issue on an object \<open>b\<close> after its construction: every public
  member function that Buffer.cpp defines and that is not \<open>const\<close> (a \<open>const\<close> one cannot
  assign a member). An overload with fewer arguments calls the full one with 0 for each missing
  argument, where 0 sectors stands for "to the end". \<open>OpCopyTo dest\<close> is \<open>b.CopyTo(dest, ...)\<close>,
  which only reads \<open>b\<close>; \<open>OpCopyToThis src\<close> is \<open>src.CopyTo(b, ...)\<close>, which writes \<open>b\<close> (also
  when \<open>src\<close> is \<open>b\<close> itself). The file members declared in Buffer.h have no definition in
  the repository.
\<close>

datatype operation =
    OpFill "8 word" nat nat
  | OpFillZeros nat nat
  | OpFillOnes nat nat
  | OpFillBytes "8 word list" nat nat
  | OpFillIncrementing "8 word" nat nat
  | OpFillDecrementing "8 word" nat nat
  | OpFillAddressOverlay "64 word" nat nat
  | OpFillRandom nat nat
  | OpFillRandomSeeded "32 word" nat nat
  | OpFillRandomSeededBySector "32 word" nat nat
  | OpSetByte nat "8 word"
  | OpSetWord nat "16 word"
  | OpSetWordBigEndian nat "16 word"
  | OpSetDWord nat "32 word"
  | OpSetDWordBigEndian nat "32 word"
  | OpSetQWord nat "64 word"
  | OpSetQWordBigEndian nat "64 word"
  | OpSetBytes nat "8 word list"
  | OpSetString nat string
  | OpSetName string
  | OpCopyTo Buffer nat nat nat
  | OpCopyToThis Buffer nat nat nat
  | OpCopyFrom Buffer nat nat nat
  | OpCompareTo Buffer nat nat nat
  | OpIsAllZeros
  | OpCalculateChecksumByte nat nat
  | OpResize nat nat

fun perform :: "host \<Rightarrow> 64 word \<Rightarrow> Buffer \<Rightarrow> operation \<Rightarrow> outcome option" where
  "perform h now b (OpFill v s c) = Fill b v s c"
| "perform h now b (OpFillZeros s c) = FillZeros b s c"
| "perform h now b (OpFillOnes s c) = FillOnes b s c"
| "perform h now b (OpFillBytes l s c) = FillBytes b l s c"
| "perform h now b (OpFillIncrementing v s c) = FillIncrementing b v s c"
| "perform h now b (OpFillDecrementing v s c) = FillDecrementing b v s c"
| "perform h now b (OpFillAddressOverlay v s c) = FillAddressOverlay b v s c"
| "perform h now b (OpFillRandom s c) = FillRandom now b s c"
| "perform h now b (OpFillRandomSeeded seed s c) = FillRandomSeeded now b seed s c"
| "perform h now b (OpFillRandomSeededBySector seed s c) = FillRandomSeededBySector now b seed s c"
| "perform h now b (OpSetByte i v) = Some (SetByte b i v)"
| "perform h now b (OpSetWord i v) = Some (SetWord b i v)"
| "perform h now b (OpSetWordBigEndian i v) = Some (SetWordBigEndian b i v)"
| "perform h now b (OpSetDWord i v) = Some (SetDWord b i v)"
| "perform h now b (OpSetDWordBigEndian i v) = Some (SetDWordBigEndian b i v)"
| "perform h now b (OpSetQWord i v) = Some (SetQWord b i v)"
| "perform h now b (OpSetQWordBigEndian i v) = Some (SetQWordBigEndian b i v)"
| "perform h now b (OpSetBytes i v) = Some (SetBytes b i v)"
| "perform h now b (OpSetString i v) = Some (SetString b i v)"
| "perform h now b (OpSetName n) = Some (Returned (SetName b n))"
| "perform h now b (OpCopyTo dest s ds c) =
     (case CopyTo b dest s ds c of Inl e \<Rightarrow> Some (Thrown e b) | Inr d \<Rightarrow> Some (Returned b))"
| "perform h now b (OpCopyToThis src s ds c) =
     (case CopyTo src b s ds c of Inl e \<Rightarrow> Some (Thrown e b) | Inr d \<Rightarrow> Some (Returned d))"
| "perform h now b (OpCopyFrom src s ss c) = Some (CopyFrom b src s ss c)"
| "perform h now b (OpCompareTo other s1 s2 c) =
     (case CompareTo b other s1 s2 c of Inl e \<Rightarrow> Some (Thrown e b) | Inr r \<Rightarrow> Some (Returned b))"
| "perform h now b OpIsAllZeros = Some (Returned b)"
| "perform h now b (OpCalculateChecksumByte sb n) =
     (case CalculateChecksumByte b sb n of Inl e \<Rightarrow> Some (Thrown e b) | Inr r \<Rightarrow> Some (Returned b))"
| "perform h now b (OpResize sc bps) = Resize h b sc bps"
section \<open>Sizes\<close>

lemma size_t_id: "n < 2 ^ 64 \<Longrightarrow> size_t n = n"
  by (simp add: size_t_def)

section \<open>Byte-array primitives and validators\<close>

lemma length_memset [simp]: "length (memset d s v n) = length d"
  by (simp add: memset_def)

lemma nth_memset:
  "j < length d \<Longrightarrow> memset d s v n ! j = (if s \<le> j \<and> j < s + n then v else d ! j)"
  by (simp add: memset_def)

lemma length_memcpy [simp]: "length (memcpy d dst src so n) = length d"
  by (simp add: memcpy_def)

lemma nth_memcpy:
  "j < length d \<Longrightarrow>
     memcpy d dst src so n ! j = (if dst \<le> j \<and> j < dst + n then src ! (so + (j - dst)) else d ! j)"
  by (simp add: memcpy_def)

lemma nth_memcpy_in:
  "j < length d \<Longrightarrow> dst \<le> j \<Longrightarrow> j < dst + n \<Longrightarrow>
     memcpy d dst src so n ! j = src ! (so + (j - dst))"
  by (simp add: nth_memcpy)

lemma nth_memcpy_out:
  "j < length d \<Longrightarrow> \<not> (dst \<le> j \<and> j < dst + n) \<Longrightarrow> memcpy d dst src so n ! j = d ! j"
  by (auto simp: nth_memcpy)

lemma Buffer_inv_total: "Buffer_inv b \<Longrightarrow> GetTotalBytes b = sectorCount b * bytesPerSector b"
  by (simp add: Buffer_inv_def GetTotalBytes_def size_t_def)

lemma Buffer_inv_sectorCount_bound: "Buffer_inv b \<Longrightarrow> sectorCount b < 2 ^ 63"
proof -
  assume inv: "Buffer_inv b"
  have bps: "1 \<le> bytesPerSector b" using inv by (simp add: Buffer_inv_def)
  have "sectorCount b * 1 \<le> sectorCount b * bytesPerSector b"
    using bps by (rule mult_le_mono2)
  then have le: "sectorCount b \<le> sectorCount b * bytesPerSector b" by simp
  have lt: "sectorCount b * bytesPerSector b < 2 ^ 63" using inv by (simp add: Buffer_inv_def)
  from le lt show ?thesis by (rule le_less_trans)
qed

lemma range_bytes_bound:
  assumes "Buffer_inv b" and "m \<le> sectorCount b"
  shows "m * bytesPerSector b \<le> sectorCount b * bytesPerSector b"
    and "m * bytesPerSector b < 2 ^ 63"
proof -
  show le: "m * bytesPerSector b \<le> sectorCount b * bytesPerSector b"
    using assms(2) by (rule mult_le_mono1)
  have lt: "sectorCount b * bytesPerSector b < 2 ^ 63"
    using assms(1) by (simp add: Buffer_inv_def)
  from le lt show "m * bytesPerSector b < 2 ^ 63" by (rule le_less_trans)
qed

lemma ValidateSectorRange_valid:
  assumes inv: "Buffer_inv b" and v: "valid_range b s n"
  shows "ValidateSectorRangeAndGetSectorCount b s n = Inr (range_count b s n)"
    and "0 < range_count b s n" and "s + range_count b s n \<le> sectorCount b"
proof -
  have sc: "sectorCount b < 2 ^ 63" using inv by (rule Buffer_inv_sectorCount_bound)
  have s: "s < sectorCount b" and sn: "s + n \<le> sectorCount b"
    using v by (simp_all add: valid_range_def)
  have "(2::nat) ^ 64 = 2 ^ 63 + 2 ^ 63" by simp
  then have big: "sectorCount b + 2 ^ 64 - s = 2 ^ 64 + (sectorCount b - s)"
    using s by simp
  have sub: "size_t (sectorCount b + 2 ^ 64 - s) = sectorCount b - s"
    unfolding big using sc by (simp add: size_t_def)
  show pos: "0 < range_count b s n" using s by (simp add: range_count_def)
  show le: "s + range_count b s n \<le> sectorCount b"
    using s sn by (simp add: range_count_def)
  have "s + range_count b s n < 2 ^ 64" using le sc by simp
  then have id: "size_t (s + range_count b s n) = s + range_count b s n" by (rule size_t_id)
  have n: "(if n = 0 then size_t (sectorCount b + 2 ^ 64 - s) else n) = range_count b s n"
    using sub by (simp add: range_count_def)
  have "\<not> s \<ge> sectorCount b" using s by simp
  moreover have "\<not> size_t (s + range_count b s n) > sectorCount b" using le id by simp
  ultimately show "ValidateSectorRangeAndGetSectorCount b s n = Inr (range_count b s n)"
    unfolding ValidateSectorRangeAndGetSectorCount_def n Let_def by simp
qed

lemma GetStartAndStop_valid:
  assumes inv: "Buffer_inv b" and v: "valid_range b s n"
  shows "GetStartAndStopBytesFromSectors b s n =
           Inr (s * bytesPerSector b, (s + range_count b s n) * bytesPerSector b)"
proof -
  note val = ValidateSectorRange_valid [OF inv v]
  have s: "s \<le> sectorCount b" using v by (simp add: valid_range_def)
  have b1: "s * bytesPerSector b < 2 ^ 64"
    using range_bytes_bound(2) [OF inv s] by simp
  have sc: "sectorCount b < 2 ^ 63" using inv by (rule Buffer_inv_sectorCount_bound)
  have b2: "s + range_count b s n < 2 ^ 64" using val(3) sc by simp
  have b3: "(s + range_count b s n) * bytesPerSector b < 2 ^ 64"
    using range_bytes_bound(2) [OF inv val(3)] by simp
  show ?thesis
    using val(1) val(2)
    by (simp add: GetStartAndStopBytesFromSectors_def size_t_id [OF b1] size_t_id [OF b2]
        size_t_id [OF b3])
qed

lemma range_in_payload:
  assumes inv: "Buffer_inv b" and v: "valid_range b s n"
  shows "(s + range_count b s n) * bytesPerSector b \<le> length (dataStart b)"
    and "s * bytesPerSector b + bytesPerSector b \<le> (s + range_count b s n) * bytesPerSector b"
proof -
  note val = ValidateSectorRange_valid [OF inv v]
  show "(s + range_count b s n) * bytesPerSector b \<le> length (dataStart b)"
    using range_bytes_bound(1) [OF inv val(3)] inv by (simp add: Buffer_inv_def)
  have "Suc s \<le> s + range_count b s n" using val(2) by simp
  then have "Suc s * bytesPerSector b \<le> (s + range_count b s n) * bytesPerSector b"
    by (rule mult_le_mono1)
  then show "s * bytesPerSector b + bytesPerSector b \<le> (s + range_count b s n) * bytesPerSector b"
    by simp
qed

section \<open>FillCompressionInfo: what the loop writes\<close>

lemma FCI_body_unfold:
  "FillCompressionInfo_body t l sb i d =
     (if t = eFixPattern \<or> t = eIncrementingPattern \<or> t = eDecrementingPattern
      then memcpy (if d ! sb = 0 \<and> t = eFixPattern then d else d[i := push_bit 4 t OR l])
             (i - 12)
             (if d ! sb = 0 \<and> t = eFixPattern then d else d[i := push_bit 4 t OR l])
             (i - 20) (unat l)
      else (if d ! sb = 0 \<and> t = eFixPattern then d else d[i := push_bit 4 t OR l]))"
  by (simp add: FillCompressionInfo_body_def Let_def
      COMPRESSION_PATTERN_SIZE_IN_BYTE_def COMPRESSION_LBA_SIZE_IN_BYTE_def)

lemma FCI_body_length [simp]: "length (FillCompressionInfo_body t l sb i d) = length d"
  by (simp add: FCI_body_unfold)

lemma FCI_body_nth_other:
  assumes p: "p < length d" and pi: "p \<noteq> i" and out: "\<not> (i - 12 \<le> p \<and> p < i - 12 + unat l)"
  shows "FillCompressionInfo_body t l sb i d ! p = d ! p"
proof -
  let ?d1 = "if d ! sb = 0 \<and> t = eFixPattern then d else d[i := push_bit 4 t OR l]"
  have len: "p < length ?d1" using p by simp
  have d1: "?d1 ! p = d ! p" using pi by simp
  have "memcpy ?d1 (i - 12) ?d1 (i - 20) (unat l) ! p = ?d1 ! p"
    using len out by (rule nth_memcpy_out)
  then show ?thesis unfolding FCI_body_unfold using d1 by presburger
qed

lemma FCI_body_nth_type:
  assumes il: "i < length d" and "12 \<le> i" and "unat l \<le> 8"
  shows "FillCompressionInfo_body t l sb i d ! i =
           (if d ! sb = 0 \<and> t = eFixPattern then d ! i else push_bit 4 t OR l)"
proof -
  let ?d1 = "if d ! sb = 0 \<and> t = eFixPattern then d else d[i := push_bit 4 t OR l]"
  have len: "i < length ?d1" using il by simp
  have d1: "?d1 ! i = (if d ! sb = 0 \<and> t = eFixPattern then d ! i else push_bit 4 t OR l)"
    using il by simp
  have out: "\<not> (i - 12 \<le> i \<and> i < i - 12 + unat l)" using assms(2,3) by simp
  have "memcpy ?d1 (i - 12) ?d1 (i - 20) (unat l) ! i = ?d1 ! i"
    using len out by (rule nth_memcpy_out)
  then show ?thesis unfolding FCI_body_unfold using d1 by presburger
qed

lemma FCI_body_nth_copy:
  assumes t: "t = eFixPattern \<or> t = eIncrementingPattern \<or> t = eDecrementingPattern"
    and j: "j < unat l" and l: "unat l \<le> 8" and i20: "20 \<le> i" and il: "i < length d"
  shows "FillCompressionInfo_body t l sb i d ! (i - 12 + j) = d ! (i - 20 + j)"
proof -
  let ?d1 = "if d ! sb = 0 \<and> t = eFixPattern then d else d[i := push_bit 4 t OR l]"
  have "i - 12 + j < length d" using il j l i20 by arith
  then have len: "i - 12 + j < length ?d1" by simp
  have src: "?d1 ! (i - 20 + j) = d ! (i - 20 + j)" using j l i20 by simp
  have "memcpy ?d1 (i - 12) ?d1 (i - 20) (unat l) ! (i - 12 + j)
          = ?d1 ! (i - 20 + (i - 12 + j - (i - 12)))"
    using len j by (intro nth_memcpy_in) simp_all
  also have "\<dots> = d ! (i - 20 + j)" using src by simp
  finally show ?thesis unfolding FCI_body_unfold using t by presburger
qed

lemma FCI_loop_step:
  "i < eb \<Longrightarrow>
     FillCompressionInfo_loop bps t l sb eb i d =
       FillCompressionInfo_loop bps t l sb eb (i + bps) (FillCompressionInfo_body t l sb i d)"
  by (subst FillCompressionInfo_loop.simps) simp

lemma FCI_loop_stop: "\<not> i < eb \<Longrightarrow> FillCompressionInfo_loop bps t l sb eb i d = Some d"
  by (subst FillCompressionInfo_loop.simps) simp

lemma FCI_loop_Some:
  assumes "0 < bps"
  shows "\<exists>d'. FillCompressionInfo_loop bps t l sb eb i d = Some d' \<and> length d' = length d"
proof (induction "eb - i" arbitrary: i d rule: less_induct)
  case less
  show ?case
  proof (cases "i < eb")
    case True
    then have "eb - (i + bps) < eb - i" using assms by simp
    from less [OF this, of "FillCompressionInfo_body t l sb i d"]
    show ?thesis by (simp add: FCI_loop_step [OF True])
  next
    case False
    then show ?thesis by (simp add: FCI_loop_stop)
  qed
qed

lemma FCI_loop_below:
  assumes "0 < bps"
  shows "FillCompressionInfo_loop bps t l sb eb i d = Some d' \<Longrightarrow> p < length d \<Longrightarrow>
           p + 12 < i \<Longrightarrow> d' ! p = d ! p"
proof (induction "eb - i" arbitrary: i d rule: less_induct)
  case less
  show ?case
  proof (cases "i < eb")
    case True
    then have m: "eb - (i + bps) < eb - i" using assms by simp
    have run: "FillCompressionInfo_loop bps t l sb eb (i + bps)
                 (FillCompressionInfo_body t l sb i d) = Some d'"
      using less.prems(1) by (simp add: FCI_loop_step [OF True])
    have "d' ! p = FillCompressionInfo_body t l sb i d ! p"
      using less.hyps [OF m run] less.prems(2,3) by simp
    also have "\<dots> = d ! p"
      using less.prems(2,3) by (intro FCI_body_nth_other) auto
    finally show ?thesis .
  next
    case False
    then show ?thesis using less.prems(1) by (simp add: FCI_loop_stop)
  qed
qed

lemma FCI_loop_sector:
  assumes bps: "21 \<le> bps" and l: "unat l \<le> 8"
  shows "sb + 20 \<le> i \<Longrightarrow> eb \<le> length d \<Longrightarrow>
         FillCompressionInfo_loop bps t l sb eb i d = Some d' \<Longrightarrow> i + k * bps < eb \<Longrightarrow>
         d' ! (i + k * bps) =
           (if d ! sb = 0 \<and> t = eFixPattern then d ! (i + k * bps) else push_bit 4 t OR l) \<and>
         (t = eFixPattern \<or> t = eIncrementingPattern \<or> t = eDecrementingPattern \<longrightarrow>
            (\<forall>j < unat l. d' ! (i + k * bps - 12 + j) = d ! (i + k * bps - 20 + j)))"
proof (induction k arbitrary: i d)
  case 0
  have ieb: "i < eb" using "0.prems"(4) by simp
  have pos: "0 < bps" using bps by simp
  let ?d1 = "FillCompressionInfo_body t l sb i d"
  have run: "FillCompressionInfo_loop bps t l sb eb (i + bps) ?d1 = Some d'"
    using "0.prems"(3) by (simp add: FCI_loop_step [OF ieb])
  have il: "i < length d" using ieb "0.prems"(2) by simp
  have keep: "d' ! p = ?d1 ! p" if "p \<le> i" for p
    using that il bps by (intro FCI_loop_below [OF pos run]) auto
  have ty: "d' ! i = (if d ! sb = 0 \<and> t = eFixPattern then d ! i else push_bit 4 t OR l)"
    using keep [of i] FCI_body_nth_type [OF il _ l, of t sb] "0.prems"(1) by simp
  have cp: "d' ! (i - 12 + j) = d ! (i - 20 + j)"
    if "t = eFixPattern \<or> t = eIncrementingPattern \<or> t = eDecrementingPattern" "j < unat l" for j
  proof -
    have "i - 12 + j \<le> i" using that(2) l "0.prems"(1) by simp
    then have "d' ! (i - 12 + j) = ?d1 ! (i - 12 + j)" by (rule keep)
    also have "\<dots> = d ! (i - 20 + j)"
      using that l "0.prems"(1) il by (intro FCI_body_nth_copy) auto
    finally show ?thesis .
  qed
  show ?case using ty cp by simp
next
  case (Suc k)
  have pos: "0 < bps" using bps by simp
  have ieb: "i < eb" using Suc.prems(4) by simp
  let ?d1 = "FillCompressionInfo_body t l sb i d"
  let ?q = "i + bps + k * bps"
  have q: "i + Suc k * bps = ?q" by simp
  have run: "FillCompressionInfo_loop bps t l sb eb (i + bps) ?d1 = Some d'"
    using Suc.prems(3) by (simp add: FCI_loop_step [OF ieb])
  have qeb: "?q < eb" using Suc.prems(4) by simp
  have ih: "d' ! ?q =
           (if ?d1 ! sb = 0 \<and> t = eFixPattern then ?d1 ! ?q else push_bit 4 t OR l) \<and>
         (t = eFixPattern \<or> t = eIncrementingPattern \<or> t = eDecrementingPattern \<longrightarrow>
            (\<forall>j < unat l. d' ! (?q - 12 + j) = ?d1 ! (?q - 20 + j)))"
    using Suc.prems(1,2) qeb by (intro Suc.IH [OF _ _ run]) auto
  have sbl: "sb < length d" using Suc.prems(1,2) ieb by simp
  have s1: "?d1 ! sb = d ! sb"
    using sbl Suc.prems(1) l by (intro FCI_body_nth_other) auto
  have s2: "?d1 ! ?q = d ! ?q"
    using qeb Suc.prems(1,2) l bps by (intro FCI_body_nth_other) auto
  have s3: "?d1 ! (?q - 20 + j) = d ! (?q - 20 + j)" if "j < unat l" for j
    using that qeb Suc.prems(1,2) l bps by (intro FCI_body_nth_other) auto
  from ih have "d' ! ?q =
      (if ?d1 ! sb = 0 \<and> t = eFixPattern then ?d1 ! ?q else push_bit 4 t OR l)"
    by blast
  then have a: "d' ! ?q = (if d ! sb = 0 \<and> t = eFixPattern then d ! ?q else push_bit 4 t OR l)"
    unfolding s1 s2 .
  have c: "d' ! (?q - 12 + j) = d ! (?q - 20 + j)"
    if "t = eFixPattern \<or> t = eIncrementingPattern \<or> t = eDecrementingPattern" "j < unat l"
    for j
  proof -
    have "d' ! (?q - 12 + j) = ?d1 ! (?q - 20 + j)" using ih that by blast
    then show ?thesis using s3 [OF that(2)] by simp
  qed
  show ?case unfolding q using a c by blast
qed

lemma FCI_body_zero:
  assumes z: "\<And>p. p < length d \<Longrightarrow> d ! p = 0" and il: "i < length d" and sbl: "sb < length d"
  shows "FillCompressionInfo_body eFixPattern 1 sb i d = d"
proof -
  have sb0: "d ! sb = 0" using sbl by (rule z)
  have "memcpy d (i - 12) d (i - 20) (unat (1 :: 8 word)) = d"
  proof (rule nth_equalityI)
    show "length (memcpy d (i - 12) d (i - 20) (unat (1 :: 8 word))) = length d" by simp
  next
    fix p assume "p < length (memcpy d (i - 12) d (i - 20) (unat (1 :: 8 word)))"
    then have p: "p < length d" by simp
    show "memcpy d (i - 12) d (i - 20) (unat (1 :: 8 word)) ! p = d ! p"
    proof (cases "i - 12 \<le> p \<and> p < i - 12 + unat (1 :: 8 word)")
      case True
      then have "memcpy d (i - 12) d (i - 20) (unat (1 :: 8 word)) ! p
                   = d ! (i - 20 + (p - (i - 12)))"
        using p by (intro nth_memcpy_in) simp_all
      also have "\<dots> = 0" using True il by (intro z) simp
      finally show ?thesis using z [OF p] by simp
    next
      case False
      with p show ?thesis by (rule nth_memcpy_out)
    qed
  qed
  then show ?thesis unfolding FCI_body_unfold using sb0 by simp
qed

lemma FCI_loop_zero:
  assumes "0 < bps" and z: "\<And>p. p < length d \<Longrightarrow> d ! p = 0"
    and "eb \<le> length d" and "sb < length d"
  shows "FillCompressionInfo_loop bps eFixPattern 1 sb eb i d = Some d"
proof (induction "eb - i" arbitrary: i rule: less_induct)
  case less
  show ?case
  proof (cases "i < eb")
    case True
    then have m: "eb - (i + bps) < eb - i" using assms(1) by simp
    have il: "i < length d" using True assms(3) by simp
    have "FillCompressionInfo_body eFixPattern 1 sb i d = d"
      using z il assms(4) by (rule FCI_body_zero)
    then show ?thesis using less [OF m] by (simp add: FCI_loop_step [OF True])
  next
    case False
    then show ?thesis by (simp add: FCI_loop_stop)
  qed
qed

section \<open>The doubling copier and the first-sector loops\<close>

lemma FillPattern_loop_step:
  "c < eb \<Longrightarrow>
     FillPattern_loop ps pl c eb d =
       FillPattern_loop ps (if pl \<ge> 4096 then pl else pl * 2) (c + min pl (eb - c)) eb
         (memcpy d c d ps (min pl (eb - c)))"
  by (subst FillPattern_loop.simps) simp

lemma FillPattern_loop_stop: "\<not> c < eb \<Longrightarrow> FillPattern_loop ps pl c eb d = Some d"
  by (subst FillPattern_loop.simps) simp

lemma memcpy_periodic:
  assumes P: "0 < P" and dvd: "P dvd (c - ps)" and ge: "P \<le> c - ps"
    and per: "\<And>m. m < c - ps \<Longrightarrow> d ! (ps + m) = d ! (ps + m mod P)"
    and L: "L \<le> c - ps" and len: "c + L \<le> length d" and m: "m < c + L - ps"
  shows "memcpy d c d ps L ! (ps + m) = memcpy d c d ps L ! (ps + m mod P)"
proof -
  let ?d2 = "memcpy d c d ps L"
  have psc: "ps \<le> c" using ge P by simp
  have modlt: "m mod P < c - ps" using P ge by (meson less_le_trans mod_less_divisor)
  have low: "?d2 ! (ps + m mod P) = d ! (ps + m mod P)"
    using modlt psc len by (intro nth_memcpy_out) auto
  show ?thesis
  proof (cases "m < c - ps")
    case True
    have "?d2 ! (ps + m) = d ! (ps + m)"
      using True psc len by (intro nth_memcpy_out) auto
    then show ?thesis using per [OF True] low by simp
  next
    case False
    define m' where "m' = m - (c - ps)"
    have m_eq: "m = m' + (c - ps)" using False by (simp add: m'_def)
    have m'L: "m' < L" using m False psc by (simp add: m'_def)
    have "?d2 ! (ps + m) = d ! (ps + (ps + m - c))"
      using m False psc len by (intro nth_memcpy_in) auto
    also have "ps + m - c = m'" using False psc by (simp add: m'_def)
    also have "d ! (ps + m') = d ! (ps + m' mod P)"
      using m'L L by (intro per) simp
    also have "m' mod P = m mod P"
      unfolding m_eq using dvd by (simp add: mod_add_right_eq [symmetric] dvd_imp_mod_0)
    finally show ?thesis using low by simp
  qed
qed

lemma FillPattern_loop_periodic:
  assumes P: "0 < P"
  shows "P dvd pl \<Longrightarrow> 0 < pl \<Longrightarrow> pl \<le> c - ps \<Longrightarrow> P dvd (c - ps) \<Longrightarrow> c \<le> eb \<Longrightarrow>
         eb \<le> length d \<Longrightarrow> (\<And>m. m < c - ps \<Longrightarrow> d ! (ps + m) = d ! (ps + m mod P)) \<Longrightarrow>
         \<exists>d'. FillPattern_loop ps pl c eb d = Some d' \<and> length d' = length d \<and>
              (\<forall>m < eb - ps. d' ! (ps + m) = d' ! (ps + m mod P)) \<and>
              (\<forall>p < length d. p < c \<or> eb \<le> p \<longrightarrow> d' ! p = d ! p)"
proof (induction "eb - c" arbitrary: c pl d rule: less_induct)
  case less
  have psc: "ps < c" using less.prems(2,3) by simp
  have ge: "P \<le> c - ps"
    using less.prems(1,2,3) P by (meson dvd_imp_le le_trans)
  show ?case
  proof (cases "c < eb")
    case False
    then have "c = eb" using less.prems(5) by simp
    then show ?thesis using less.prems(7) by (simp add: FillPattern_loop_stop)
  next
    case True
    define L where "L = min pl (eb - c)"
    define d2 where "d2 = memcpy d c d ps L"
    define pl' where "pl' = (if pl \<ge> 4096 then pl else pl * 2)"
    have Lpos: "0 < L" using True less.prems(2) by (simp add: L_def)
    have Lle: "L \<le> c - ps" using less.prems(3) by (simp add: L_def)
    have cL: "c + L \<le> eb" using True by (simp add: L_def)
    have len2: "length d2 = length d" by (simp add: d2_def)
    have step: "FillPattern_loop ps pl c eb d = FillPattern_loop ps pl' (c + L) eb d2"
      unfolding L_def d2_def pl'_def using True by (rule FillPattern_loop_step)
    have per2: "d2 ! (ps + m) = d2 ! (ps + m mod P)" if "m < c + L - ps" for m
    proof -
      have "c + L \<le> length d" using cL less.prems(6) by simp
      from memcpy_periodic [OF P less.prems(4) ge less.prems(7) Lle this that]
      show ?thesis unfolding d2_def by simp
    qed
    have frame2: "d2 ! p = d ! p" if "p < length d" "p < c \<or> eb \<le> p" for p
      unfolding d2_def using that cL by (intro nth_memcpy_out) auto
    show ?thesis
    proof (cases "c + L < eb")
      case False
      then have fin: "c + L = eb" using cL by simp
      have "FillPattern_loop ps pl c eb d = Some d2"
        unfolding step using False by (simp add: FillPattern_loop_stop)
      moreover have "\<forall>m < eb - ps. d2 ! (ps + m) = d2 ! (ps + m mod P)"
        using per2 fin by simp
      ultimately show ?thesis using len2 frame2 by simp
    next
      case lt: True
      have Lpl: "L = pl"
        using lt unfolding L_def min_def by (simp split: if_splits)
      have meas: "eb - (c + L) < eb - c" using Lpos True by simp
      have a1: "P dvd pl'" using less.prems(1) by (simp add: pl'_def)
      have a2: "0 < pl'" using less.prems(2) by (simp add: pl'_def)
      have "pl \<le> c + pl - ps" and "pl * 2 \<le> c + pl - ps"
        using less.prems(3) psc by arith+
      then have a3: "pl' \<le> c + L - ps" by (simp add: pl'_def Lpl)
      have "c + L - ps = (c - ps) + pl" using psc by (simp add: Lpl)
      then have a4: "P dvd (c + L - ps)" using less.prems(1,4) by simp
      have a5: "c + L \<le> eb" by (rule cL)
      have a6: "eb \<le> length d2" using less.prems(6) len2 by simp
      from less.hyps [OF meas a1 a2 a3 a4 a5 a6 per2]
      obtain d' where run: "FillPattern_loop ps pl' (c + L) eb d2 = Some d'"
        and len': "length d' = length d2"
        and per': "\<forall>m < eb - ps. d' ! (ps + m) = d' ! (ps + m mod P)"
        and frame': "\<forall>p < length d2. p < c + L \<or> eb \<le> p \<longrightarrow> d' ! p = d2 ! p"
        by blast
      have "d' ! p = d ! p" if "p < length d" "p < c \<or> eb \<le> p" for p
      proof -
        have "d' ! p = d2 ! p" using frame' that len2 by auto
        then show ?thesis using frame2 [OF that] by simp
      qed
      then show ?thesis unfolding step run using len' len2 per' by simp
    qed
  qed
qed

lemma FillIncrementing_loop_length [simp]:
  "length (FillIncrementing_loop i stop v d) = length d"
  by (induction i stop v d rule: FillIncrementing_loop.induct)
     (subst FillIncrementing_loop.simps, simp)

lemma FillIncrementing_loop_nth:
  "p < length d \<Longrightarrow>
     FillIncrementing_loop i stop v d ! p =
       (if i \<le> p \<and> p < stop then v + of_nat (p - i) else d ! p)"
proof (induction i stop v d rule: FillIncrementing_loop.induct)
  case (1 i stop v d)
  show ?case
  proof (cases "i < stop")
    case True
    have "FillIncrementing_loop i stop v d ! p =
            FillIncrementing_loop (i + 1) stop (v + 1) (d[i := v]) ! p"
      using True by (subst FillIncrementing_loop.simps) simp
    also have "\<dots> = (if i + 1 \<le> p \<and> p < stop then v + 1 + of_nat (p - (i + 1))
                      else d[i := v] ! p)"
      using "1.IH" [OF True] "1.prems" by simp
    also have "\<dots> = (if i \<le> p \<and> p < stop then v + of_nat (p - i) else d ! p)"
    proof (cases "p = i")
      case True
      then show ?thesis using \<open>i < stop\<close> "1.prems" by simp
    next
      case False
      then show ?thesis by (auto simp: Suc_diff_Suc nth_list_update)
    qed
    finally show ?thesis .
  next
    case False
    then show ?thesis by (subst FillIncrementing_loop.simps) auto
  qed
qed

lemma FillDecrementing_loop_length [simp]:
  "length (FillDecrementing_loop i stop v d) = length d"
  by (induction i stop v d rule: FillDecrementing_loop.induct)
     (subst FillDecrementing_loop.simps, simp)

lemma FillBytes_loop_length [simp]:
  "length (FillBytes_loop list sb i stop d) = length d"
  by (induction list sb i stop d rule: FillBytes_loop.induct)
     (subst FillBytes_loop.simps, simp)

lemma FillBytes_loop_nth:
  "p < length d \<Longrightarrow>
     FillBytes_loop list sb i stop d ! p =
       (if i \<le> p \<and> p < stop then list ! ((p - sb) mod length list) else d ! p)"
proof (induction list sb i stop d rule: FillBytes_loop.induct)
  case (1 list sb i stop d)
  show ?case
  proof (cases "i < stop")
    case True
    have "FillBytes_loop list sb i stop d ! p =
            FillBytes_loop list sb (i + 1) stop (d[i := list ! ((i - sb) mod length list)]) ! p"
      using True by (subst FillBytes_loop.simps) simp
    also have "\<dots> = (if i + 1 \<le> p \<and> p < stop then list ! ((p - sb) mod length list)
                      else d[i := list ! ((i - sb) mod length list)] ! p)"
      using "1.IH" [OF True] "1.prems" by simp
    also have "\<dots> = (if i \<le> p \<and> p < stop then list ! ((p - sb) mod length list) else d ! p)"
      using True "1.prems" by (cases "p = i") (auto simp: nth_list_update)
    finally show ?thesis .
  next
    case False
    then show ?thesis by (subst FillBytes_loop.simps) auto
  qed
qed

section \<open>The pattern fills, unfolded on a valid range\<close>

lemma FillCompressionInfo_unfold:
  assumes l: "unat l \<le> 8"
  shows "FillCompressionInfo b t l sb eb =
           map_option (\<lambda>d. b\<lparr> dataStart := d \<rparr>)
             (FillCompressionInfo_loop (bytesPerSector b) t l sb eb (sb + 20) (dataStart b))"
proof -
  have "\<not> l > COMPRESSION_MAX_PATTERN_LEN"
    using l by (simp add: COMPRESSION_MAX_PATTERN_LEN_def word_less_nat_alt)
  moreover have "sb + COMPRESSION_LBA_SIZE_IN_BYTE + COMPRESSION_PATTERN_SIZE_IN_BYTE = sb + 20"
    by (simp add: COMPRESSION_LBA_SIZE_IN_BYTE_def COMPRESSION_PATTERN_SIZE_IN_BYTE_def)
  ultimately show ?thesis unfolding FillCompressionInfo_def by presburger
qed

lemma FillCompressionInfo_result:
  assumes bps: "0 < bytesPerSector b" and l: "unat l \<le> 8"
  shows "\<exists>d'. FillCompressionInfo_loop (bytesPerSector b) t l sb eb (sb + 20) (dataStart b) = Some d'
              \<and> length d' = length (dataStart b)
              \<and> FillCompressionInfo b t l sb eb = Some (b\<lparr> dataStart := d' \<rparr>)"
proof -
  obtain d' where run: "FillCompressionInfo_loop (bytesPerSector b) t l sb eb (sb + 20) (dataStart b)
                          = Some d'" and len: "length d' = length (dataStart b)"
    using FCI_loop_Some [OF bps] by blast
  have "FillCompressionInfo b t l sb eb = Some (b\<lparr> dataStart := d' \<rparr>)"
    unfolding FillCompressionInfo_unfold [OF l] run by simp
  then show ?thesis using run len by blast
qed

lemma FillIncrementing_unfold:
  assumes inv: "Buffer_inv b" and v: "valid_range b s n"
  shows "\<exists>d2. length d2 = length (dataStart b) \<and>
           (\<forall>m < bytesPerSector b. d2 ! (s * bytesPerSector b + m) = v0 + of_nat m) \<and>
           (\<forall>m < range_count b s n * bytesPerSector b.
              d2 ! (s * bytesPerSector b + m) = d2 ! (s * bytesPerSector b + m mod bytesPerSector b)) \<and>
           (\<forall>p < length (dataStart b).
              p < s * bytesPerSector b \<or> (s + range_count b s n) * bytesPerSector b \<le> p
              \<longrightarrow> d2 ! p = dataStart b ! p) \<and>
           FillIncrementing b v0 s n =
             (if usePatternMode b
              then map_option Returned
                     (FillCompressionInfo (b\<lparr> dataStart := d2 \<rparr>) eIncrementingPattern 1
                        (s * bytesPerSector b) ((s + range_count b s n) * bytesPerSector b))
              else Some (Returned (b\<lparr> dataStart := d2 \<rparr>)))"
proof -
  let ?bps = "bytesPerSector b"
  let ?sb = "s * ?bps" and ?eb = "(s + range_count b s n) * ?bps"
  let ?d1 = "FillIncrementing_loop ?sb (?sb + ?bps) v0 (dataStart b)"
  have g: "GetStartAndStopBytesFromSectors b s n = Inr (?sb, ?eb)"
    using inv v by (rule GetStartAndStop_valid)
  have ebl: "?eb \<le> length (dataStart b)" and first: "?sb + ?bps \<le> ?eb"
    using range_in_payload [OF inv v] by simp_all
  have pos: "0 < ?bps" using inv by (simp add: Buffer_inv_def)
  have span: "?eb - ?sb = range_count b s n * ?bps" by (simp add: add_mult_distrib)
  have d1_first: "?d1 ! (?sb + m) = v0 + of_nat m" if "m < ?bps" for m
    using that first ebl by (simp add: FillIncrementing_loop_nth)
  have d1_frame: "?d1 ! p = dataStart b ! p" if "p < length (dataStart b)" "p < ?sb \<or> ?eb \<le> p" for p
    using that first by (auto simp: FillIncrementing_loop_nth)
  have "\<exists>d2. length d2 = length (dataStart b) \<and>
          (\<forall>m < ?bps. d2 ! (?sb + m) = v0 + of_nat m) \<and>
          (\<forall>m < ?eb - ?sb. d2 ! (?sb + m) = d2 ! (?sb + m mod ?bps)) \<and>
          (\<forall>p < length (dataStart b). p < ?sb \<or> ?eb \<le> p \<longrightarrow> d2 ! p = dataStart b ! p) \<and>
          (if ?eb > ?sb + ?bps
           then FillPattern (b\<lparr> dataStart := ?d1 \<rparr>) ?sb ?bps (?sb + ?bps) ?eb
           else Some (b\<lparr> dataStart := ?d1 \<rparr>)) = Some (b\<lparr> dataStart := d2 \<rparr>)"
  proof (cases "?eb > ?sb + ?bps")
    case False
    then have e: "?eb = ?sb + ?bps" using first by simp
    have "\<forall>m < ?eb - ?sb. ?d1 ! (?sb + m) = ?d1 ! (?sb + m mod ?bps)"
      unfolding e by simp
    moreover have "length ?d1 = length (dataStart b)" by simp
    moreover have "(if ?eb > ?sb + ?bps
           then FillPattern (b\<lparr> dataStart := ?d1 \<rparr>) ?sb ?bps (?sb + ?bps) ?eb
           else Some (b\<lparr> dataStart := ?d1 \<rparr>)) = Some (b\<lparr> dataStart := ?d1 \<rparr>)"
      using False by simp
    ultimately show ?thesis using d1_first d1_frame by blast
  next
    case True
    have per: "?d1 ! (?sb + m) = ?d1 ! (?sb + m mod ?bps)" if "m < ?sb + ?bps - ?sb" for m
      using that by simp
    have "\<exists>d'. FillPattern_loop ?sb ?bps (?sb + ?bps) ?eb ?d1 = Some d' \<and> length d' = length ?d1 \<and>
              (\<forall>m < ?eb - ?sb. d' ! (?sb + m) = d' ! (?sb + m mod ?bps)) \<and>
              (\<forall>p < length ?d1. p < ?sb + ?bps \<or> ?eb \<le> p \<longrightarrow> d' ! p = ?d1 ! p)"
      using pos
    proof (rule FillPattern_loop_periodic)
      show "?bps dvd ?bps" by simp
      show "0 < ?bps" by (rule pos)
      show "?bps \<le> ?sb + ?bps - ?sb" by simp
      show "?bps dvd ?sb + ?bps - ?sb" by simp
      show "?sb + ?bps \<le> ?eb" by (rule first)
      show "?eb \<le> length ?d1" using ebl by simp
      show "\<And>m. m < ?sb + ?bps - ?sb \<Longrightarrow> ?d1 ! (?sb + m) = ?d1 ! (?sb + m mod ?bps)"
        by (rule per)
    qed
    then obtain d' where run: "FillPattern_loop ?sb ?bps (?sb + ?bps) ?eb ?d1 = Some d'"
      and len: "length d' = length ?d1"
      and per': "\<forall>m < ?eb - ?sb. d' ! (?sb + m) = d' ! (?sb + m mod ?bps)"
      and frame: "\<forall>p < length ?d1. p < ?sb + ?bps \<or> ?eb \<le> p \<longrightarrow> d' ! p = ?d1 ! p"
      by blast
    have f1: "d' ! (?sb + m) = v0 + of_nat m" if "m < ?bps" for m
    proof -
      have "?sb + m < length ?d1" using that first ebl by simp
      then have "d' ! (?sb + m) = ?d1 ! (?sb + m)" using frame that by simp
      then show ?thesis using d1_first [OF that] by simp
    qed
    have f2: "d' ! p = dataStart b ! p" if "p < length (dataStart b)" "p < ?sb \<or> ?eb \<le> p" for p
    proof -
      have "d' ! p = ?d1 ! p" using frame that by auto
      then show ?thesis using d1_frame [OF that] by simp
    qed
    have "FillPattern (b\<lparr> dataStart := ?d1 \<rparr>) ?sb ?bps (?sb + ?bps) ?eb
            = Some (b\<lparr> dataStart := d' \<rparr>)"
      using run by (simp add: FillPattern_def)
    then have fp': "(if ?eb > ?sb + ?bps
           then FillPattern (b\<lparr> dataStart := ?d1 \<rparr>) ?sb ?bps (?sb + ?bps) ?eb
           else Some (b\<lparr> dataStart := ?d1 \<rparr>)) = Some (b\<lparr> dataStart := d' \<rparr>)"
      using True by simp
    have len': "length d' = length (dataStart b)" using len by simp
    from len' f1 per' f2 fp' show ?thesis by blast
  qed
  then obtain d2 where len: "length d2 = length (dataStart b)"
    and f: "\<forall>m < ?bps. d2 ! (?sb + m) = v0 + of_nat m"
    and per: "\<forall>m < ?eb - ?sb. d2 ! (?sb + m) = d2 ! (?sb + m mod ?bps)"
    and frame: "\<forall>p < length (dataStart b). p < ?sb \<or> ?eb \<le> p \<longrightarrow> d2 ! p = dataStart b ! p"
    and fp: "(if ?eb > ?sb + ?bps
           then FillPattern (b\<lparr> dataStart := ?d1 \<rparr>) ?sb ?bps (?sb + ?bps) ?eb
           else Some (b\<lparr> dataStart := ?d1 \<rparr>)) = Some (b\<lparr> dataStart := d2 \<rparr>)"
    by blast
  have unf: "FillIncrementing b v0 s n =
      Option.bind
        (if ?eb > ?sb + ?bps
         then FillPattern (b\<lparr> dataStart := ?d1 \<rparr>) ?sb ?bps (?sb + ?bps) ?eb
         else Some (b\<lparr> dataStart := ?d1 \<rparr>))
        (\<lambda>b2. if usePatternMode b2
              then map_option Returned (FillCompressionInfo b2 eIncrementingPattern 1 ?sb ?eb)
              else Some (Returned b2))"
    unfolding FillIncrementing_def g by (simp add: Let_def)
  have "FillIncrementing b v0 s n =
          (if usePatternMode b
           then map_option Returned
                  (FillCompressionInfo (b\<lparr> dataStart := d2 \<rparr>) eIncrementingPattern 1 ?sb ?eb)
           else Some (Returned (b\<lparr> dataStart := d2 \<rparr>)))"
    unfolding unf fp by simp
  then show ?thesis using len f per frame unfolding span by blast
qed


section \<open>Initialize, Resize and the copy constructor on valid input\<close>

lemma memset_all_zero:
  "memset d 0 0 (length d) = replicate (length d) 0"
  by (rule nth_equalityI) (simp_all add: nth_memset)

lemma FillCompressionInfo_zero:
  assumes "0 < bps" and "0 < n"
  shows "FillCompressionInfo (b\<lparr> dataStart := replicate n 0, bytesPerSector := bps \<rparr>)
           eFixPattern 1 0 n
         = Some (b\<lparr> dataStart := replicate n 0, bytesPerSector := bps \<rparr>)"
proof -
  have l: "unat (1 :: 8 word) \<le> 8" by simp
  have "FillCompressionInfo_loop bps eFixPattern 1 0 n (0 + 20) (replicate n 0)
          = Some (replicate n 0)"
    using assms by (intro FCI_loop_zero) simp_all
  then show ?thesis unfolding FillCompressionInfo_unfold [OF l] by simp
qed

lemma CalculateDataStart_ok:
  assumes "dataByteCount + 4095 + 4096 \<le> allocatedByteCount b"
  shows "\<exists>a. CalculateDataStart b data dataByteCount = Inr a"
proof -
  define off where "off = (if data mod 4096 = 0 then 0 else 4096 - data mod 4096)"
  have "x \<noteq> 0 \<Longrightarrow> 4096 - x \<le> (4095 :: nat)" for x by arith
  then have "off \<le> (4095 :: nat)" unfolding off_def by simp
  then have "\<not> data + off + 4096 + dataByteCount > data + allocatedByteCount b"
    using assms by linarith
  then show ?thesis unfolding CalculateDataStart_def Let_def off_def [symmetric] by simp
qed

lemma Initialize_valid:
  assumes sc: "1 \<le> sc" and bps: "1 \<le> bps" and tot: "sc * bps < 2 ^ 63"
  shows "Initialize h this sc bps = Some (Returned (zero_buffer sc bps (getenv_flag h)))"
proof -
  define T where "T = sc * bps"
  define pad where "pad = (if T mod 4096 = 0 then 0 else 4096 - T mod 4096)"
  define t1 where "t1 = this\<lparr> random := None, usePatternMode := getenv_flag h \<rparr>"
  define t2 where "t2 = t1\<lparr> name := [], bytesPerSector := bps, sectorCount := sc \<rparr>"
  define t3 where "t3 = t2\<lparr> dataBufferSize := T + pad \<rparr>
                          \<lparr> allocatedByteCount := T + pad + 4095 + 4096 \<rparr>"
  define t4 where "t4 = t3\<lparr> dataStart := map (newBytes h) [0..<T] \<rparr>"
  define Z where "Z = zero_buffer sc bps (getenv_flag h)"
  have padle: "pad \<le> 4096" unfolding pad_def by simp
  have T63: "T < 2 ^ 63" using tot by (simp add: T_def)
  have T64: "T < 2 ^ 64" using T63 by simp
  have big: "T + pad < 2 ^ 64" "8191 + (T + pad) < 2 ^ 64"
    using padle T63 by simp_all
  have total2: "GetTotalBytes t2 = T"
    unfolding GetTotalBytes_def t2_def T_def [symmetric] by (simp add: T_def [symmetric] size_t_id [OF T64])
  have t3: "CalculateTotalBytesToAllocate t2 T = t3"
    unfolding CalculateTotalBytesToAllocate_def Let_def t3_def pad_def [symmetric]
    by (simp add: size_t_id [OF big(1)] size_t_id [OF big(2)])
  have total3: "GetTotalBytes t3 = T"
    unfolding GetTotalBytes_def t3_def t2_def by (simp add: T_def [symmetric] size_t_id [OF T64])
  have dbs: "dataBufferSize t3 + 4095 + 4096 \<le> allocatedByteCount t3"
    by (simp add: t3_def)
  obtain a where cds: "CalculateDataStart t3 (newBase h) (dataBufferSize t3) = Inr a"
    using CalculateDataStart_ok [OF dbs] by blast
  have c1: "\<not> sc < 1" and c2: "\<not> bps < 1" using sc bps by simp_all
  have init: "Initialize h this sc bps = Fill t4 0 0 sc"
    unfolding Initialize_def Let_def getenv_flag_def [symmetric] t1_def [symmetric]
      t2_def [symmetric] total2 t3 total3 cds t4_def
    using c1 c2 by simp
  have f4: "sectorCount t4 = sc" "bytesPerSector t4 = bps" "length (dataStart t4) = T"
    "usePatternMode t4 = getenv_flag h"
    by (simp_all add: t4_def t3_def t2_def t1_def)
  have inv4: "Buffer_inv t4" using sc bps tot unfolding Buffer_inv_def f4 by (simp add: T_def)
  have v4: "valid_range t4 0 sc" using sc unfolding valid_range_def f4 by simp
  have rc: "range_count t4 0 sc = sc" using sc by (simp add: range_count_def)
  have g: "GetStartAndStopBytesFromSectors t4 0 sc = Inr (0, T)"
    using GetStartAndStop_valid [OF inv4 v4] unfolding rc f4 by (simp add: T_def)
  have ms: "memset (dataStart t4) 0 0 (T - 0) = replicate T 0"
    using memset_all_zero [of "dataStart t4"] unfolding f4 by simp
  have z: "t4\<lparr> dataStart := replicate T 0 \<rparr> = Z"
    unfolding Z_def zero_buffer_def t4_def t3_def t2_def t1_def pad_def T_def by simp
  have pos: "0 < T" using sc bps by (simp add: T_def)
  have fci: "FillCompressionInfo Z eFixPattern 1 0 T = Some Z"
  proof -
    have "Z = Z\<lparr> dataStart := replicate T 0, bytesPerSector := bps \<rparr>"
      by (simp add: Z_def zero_buffer_def T_def)
    then show ?thesis
      using FillCompressionInfo_zero [of bps T Z] bps pos by simp
  qed
  have "Fill t4 0 0 sc = Some (Returned Z)"
    unfolding Fill_def g prod.case sum.case Let_def ms z using fci by simp
  then show ?thesis unfolding init Z_def .
qed

lemma Buffer_new_valid:
  "1 \<le> sc \<Longrightarrow> 1 \<le> bps \<Longrightarrow> sc * bps < 2 ^ 63 \<Longrightarrow>
     Buffer_new h sc bps = Some (Returned (zero_buffer sc bps (getenv_flag h)))"
  unfolding Buffer_new_def by (rule Initialize_valid)

lemma zero_buffer_inv:
  "1 \<le> sc \<Longrightarrow> 1 \<le> bps \<Longrightarrow> sc * bps < 2 ^ 63 \<Longrightarrow> Buffer_inv (zero_buffer sc bps pm)"
  by (simp add: Buffer_inv_def zero_buffer_def)


lemma Resize_valid:
  assumes inv: "Buffer_inv b" and sc: "1 \<le> sc" and bps: "1 \<le> bps" and tot: "sc * bps < 2 ^ 63"
  shows "Resize h b sc bps =
           Some (Returned
             ((zero_buffer sc bps (getenv_flag h))
                \<lparr> dataStart :=
                    memcpy (replicate (sc * bps) 0) 0
                      (take (min (sectorCount b * bytesPerSector b) (sc * bps)) (dataStart b)) 0
                      (min (sectorCount b * bytesPerSector b) (sc * bps)) \<rparr>))"
proof -
  define keep where "keep = min (sectorCount b * bytesPerSector b) (sc * bps)"
  have old: "GetTotalBytes b = sectorCount b * bytesPerSector b"
    using inv by (rule Buffer_inv_total)
  have new: "size_t (sc * bps) = sc * bps" using tot by (simp add: size_t_def)
  have "0 < sectorCount b * bytesPerSector b" using inv by (simp add: Buffer_inv_def)
  moreover have "0 < sc * bps" using sc bps by simp
  ultimately have pos: "0 < keep" by (simp add: keep_def)
  have kl: "keep \<le> length (dataStart b)" using inv by (simp add: keep_def Buffer_inv_def)
  then have len: "length (take keep (dataStart b)) = keep" by simp
  have mn: "min (length (dataStart b)) keep = keep" using kl by simp
  have init: "Initialize h (b\<lparr> random := None \<rparr>) sc bps
                = Some (Returned (zero_buffer sc bps (getenv_flag h)))"
    using sc bps tot by (rule Initialize_valid)
  have z: "dataStart (zero_buffer sc bps (getenv_flag h)) = replicate (sc * bps) 0"
    by (simp add: zero_buffer_def)
  show ?thesis
    unfolding Resize_def Let_def old new keep_def [symmetric] init option.case outcome.case len z
    using pos mn by simp
qed

lemma Buffer_copy_valid:
  assumes inv: "Buffer_inv b"
    and alloc: "dataBufferSize b + 4095 + 4096 \<le> allocatedByteCount b"
  shows "Buffer_copy h b = Inr (b\<lparr> name := [] \<rparr>)"
proof -
  define t where "t = \<lparr> name = [], dataStart = [], bytesPerSector = bytesPerSector b,
                sectorCount = sectorCount b,
                random = (case random b of None \<Rightarrow> None | Some r \<Rightarrow> Some (Random32_copy r)),
                allocatedByteCount = allocatedByteCount b,
                dataBufferSize = dataBufferSize b,
                usePatternMode = usePatternMode b \<rparr>"
  define T where "T = sectorCount b * bytesPerSector b"
  have total: "GetTotalBytes b = T" unfolding T_def using inv by (rule Buffer_inv_total)
  have "GetTotalBytes t = GetTotalBytes b" by (simp add: GetTotalBytes_def t_def)
  then have total_t: "GetTotalBytes t = T" using total by simp
  have len: "length (dataStart b) = T" using inv by (simp add: Buffer_inv_def T_def)
  have "dataBufferSize t + 4095 + 4096 \<le> allocatedByteCount t" using alloc by (simp add: t_def)
  then obtain a where cds: "CalculateDataStart t (newBase h) (dataBufferSize t) = Inr a"
    using CalculateDataStart_ok by blast
  have rnd: "(case random b of None \<Rightarrow> None | Some r \<Rightarrow> Some (Random32_copy r)) = random b"
    by (cases "random b") (simp_all add: Random32_copy_def)
  have data: "memcpy (map (newBytes h) [0..<T]) 0 (dataStart b) 0 T = dataStart b"
  proof (rule nth_equalityI)
    show "length (memcpy (map (newBytes h) [0..<T]) 0 (dataStart b) 0 T) = length (dataStart b)"
      using len by simp
  next
    fix j assume "j < length (memcpy (map (newBytes h) [0..<T]) 0 (dataStart b) 0 T)"
    then have j: "j < T" by simp
    then have "memcpy (map (newBytes h) [0..<T]) 0 (dataStart b) 0 T ! j
                 = dataStart b ! (0 + (j - 0))"
      by (intro nth_memcpy_in) simp_all
    then show "memcpy (map (newBytes h) [0..<T]) 0 (dataStart b) 0 T ! j = dataStart b ! j"
      by simp
  qed
  have "Buffer_copy h b = Inr (t\<lparr> dataStart := dataStart b \<rparr>)"
    unfolding Buffer_copy_def Let_def t_def [symmetric] cds sum.case total_t total data ..
  also have "t\<lparr> dataStart := dataStart b \<rparr> = b\<lparr> name := [] \<rparr>"
    unfolding t_def rnd by simp
  finally show ?thesis .
qed


section \<open>What the operations leave unchanged\<close>

lemma frame_refl [simp]: "frame b b"
  by (simp add: frame_def)

lemma frame_data [simp]: "frame b (b\<lparr> dataStart := d \<rparr>)"
  by (simp add: frame_def)

lemma frame_random [simp]: "frame b (b\<lparr> random := r \<rparr>)"
  by (simp add: frame_def)

lemma frame_trans: "frame a b \<Longrightarrow> frame b c \<Longrightarrow> frame a c"
  unfolding frame_def by (metis Buffer.surjective Buffer.update_convs(2,5))

lemma frame_fields:
  assumes "frame b b'"
  shows "usePatternMode b' = usePatternMode b" and "sectorCount b' = sectorCount b"
    and "bytesPerSector b' = bytesPerSector b" and "name b' = name b"
proof -
  have e: "b' = b\<lparr> dataStart := dataStart b', random := random b' \<rparr>"
    using assms by (simp add: frame_def)
  show "usePatternMode b' = usePatternMode b" by (subst e) simp
  show "sectorCount b' = sectorCount b" by (subst e) simp
  show "bytesPerSector b' = bytesPerSector b" by (subst e) simp
  show "name b' = name b" by (subst e) simp
qed

lemma frame_data_after: "frame b b' \<Longrightarrow> frame b (b'\<lparr> dataStart := d \<rparr>)"
  by (rule frame_trans [of b b']) simp_all

lemma frame_random_after: "frame b b' \<Longrightarrow> frame b (b'\<lparr> random := r \<rparr>)"
  by (rule frame_trans [of b b']) simp_all

lemma FillCompressionInfo_frame:
  "FillCompressionInfo b t l sb eb = Some b' \<Longrightarrow> frame b b'"
  by (auto simp: FillCompressionInfo_def split: if_splits)

lemma FillPattern_frame: "FillPattern b ps pl sb eb = Some b' \<Longrightarrow> frame b b'"
  by (auto simp: FillPattern_def)

lemma Fill_frame: "Fill b v s c = Some out \<Longrightarrow> frame b (state_of out)"
  unfolding Fill_def Let_def
  by (auto split: sum.splits prod.splits if_splits
      dest!: FillCompressionInfo_frame intro: frame_trans [OF frame_data])

lemma bind_frame:
  assumes "Option.bind (if c then FillPattern b1 ps pl sb eb else Some b1)
             (\<lambda>b2. if usePatternMode b2
                   then map_option Returned (FillCompressionInfo b2 t l sb' eb')
                   else Some (Returned b2)) = Some out"
  shows "frame b1 (state_of out)"
proof -
  obtain b2 where b2: "(if c then FillPattern b1 ps pl sb eb else Some b1) = Some b2"
    and rest: "(if usePatternMode b2
                then map_option Returned (FillCompressionInfo b2 t l sb' eb')
                else Some (Returned b2)) = Some out"
    using assms by (auto simp: bind_eq_Some_conv)
  have f12: "frame b1 b2" using b2 by (auto split: if_splits dest: FillPattern_frame)
  have "frame b2 (state_of out)"
    using rest by (auto split: if_splits dest: FillCompressionInfo_frame)
  with f12 show ?thesis by (rule frame_trans)
qed

lemma FillBytes_frame:
  assumes "FillBytes b list s c = Some out"
  shows "frame b (state_of out)"
proof (cases "length list = 0")
  case True
  then show ?thesis using assms by (auto simp: FillBytes_def)
next
  case False
  show ?thesis
  proof (cases "GetStartAndStopBytesFromSectors b s c")
    case (Inl e)
    then show ?thesis using assms False by (auto simp: FillBytes_def)
  next
    case (Inr p)
    obtain sb eb where p: "p = (sb, eb)" by (cases p)
    define b1 where "b1 = b\<lparr> dataStart :=
        FillBytes_loop list sb sb (min (sb + length list) eb) (dataStart b) \<rparr>"
    have "Option.bind
            (if eb > sb + length list
             then FillPattern b1 sb (length list) (sb + length list) eb else Some b1)
            (\<lambda>b2. if usePatternMode b2
                  then map_option Returned
                         (FillCompressionInfo b2 eFixPattern (of_nat (length list)) sb eb)
                  else Some (Returned b2)) = Some out"
      using assms False unfolding FillBytes_def Let_def Inr p b1_def by simp
    then have "frame b1 (state_of out)" by (rule bind_frame)
    moreover have "frame b b1" by (simp add: b1_def)
    ultimately show ?thesis by (rule frame_trans [rotated])
  qed
qed

lemma FillIncrementing_frame:
  assumes "FillIncrementing b v s c = Some out"
  shows "frame b (state_of out)"
proof (cases "GetStartAndStopBytesFromSectors b s c")
  case (Inl e)
  then show ?thesis using assms by (auto simp: FillIncrementing_def)
next
  case (Inr p)
  obtain sb eb where p: "p = (sb, eb)" by (cases p)
  define b1 where "b1 = b\<lparr> dataStart :=
      FillIncrementing_loop sb (sb + bytesPerSector b) v (dataStart b) \<rparr>"
  have "Option.bind
          (if eb > sb + bytesPerSector b1
           then FillPattern b1 sb (bytesPerSector b1) (sb + bytesPerSector b1) eb else Some b1)
          (\<lambda>b2. if usePatternMode b2
                then map_option Returned (FillCompressionInfo b2 eIncrementingPattern 1 sb eb)
                else Some (Returned b2)) = Some out"
    using assms unfolding FillIncrementing_def Let_def Inr p b1_def by simp
  then have "frame b1 (state_of out)" by (rule bind_frame)
  moreover have "frame b b1" by (simp add: b1_def)
  ultimately show ?thesis by (rule frame_trans [rotated])
qed

lemma FillDecrementing_frame:
  assumes "FillDecrementing b v s c = Some out"
  shows "frame b (state_of out)"
proof (cases "GetStartAndStopBytesFromSectors b s c")
  case (Inl e)
  then show ?thesis using assms by (auto simp: FillDecrementing_def)
next
  case (Inr p)
  obtain sb eb where p: "p = (sb, eb)" by (cases p)
  define b1 where "b1 = b\<lparr> dataStart :=
      FillDecrementing_loop sb (sb + bytesPerSector b) v (dataStart b) \<rparr>"
  have "Option.bind
          (if eb > sb + bytesPerSector b1
           then FillPattern b1 sb (bytesPerSector b1) (sb + bytesPerSector b1) eb else Some b1)
          (\<lambda>b2. if usePatternMode b2
                then map_option Returned (FillCompressionInfo b2 eDecrementingPattern 1 sb eb)
                else Some (Returned b2)) = Some out"
    using assms unfolding FillDecrementing_def Let_def Inr p b1_def by simp
  then have "frame b1 (state_of out)" by (rule bind_frame)
  moreover have "frame b b1" by (simp add: b1_def)
  ultimately show ?thesis by (rule frame_trans [rotated])
qed

lemma GetRandom_frame: "frame b (snd (GetRandom now b useSeed seed))"
  by (simp add: GetRandom_def Let_def)

lemma FillSectorsWithRandomData_frame:
  "FillSectorsWithRandomData b r s c = Some (Inr (r', b')) \<Longrightarrow> frame b b'"
  unfolding FillSectorsWithRandomData_def Let_def
  by (auto split: sum.splits prod.splits if_splits
      dest!: FillCompressionInfo_frame intro: frame_trans [OF frame_data])

lemma FillRandomImpl_frame:
  assumes "FillRandomImpl now b s c useSeed seed = Some out"
  shows "frame b (state_of out)"
proof (cases "bytesPerSector b mod 4 \<noteq> 0")
  case True
  then show ?thesis using assms by (auto simp: FillRandomImpl_def)
next
  case False
  define rb where "rb = GetRandom now b useSeed seed"
  have f1: "frame b (snd rb)" unfolding rb_def by (rule GetRandom_frame)
  have run: "map_option
               (\<lambda>res. case res of Inl e \<Rightarrow> Thrown e (snd rb)
                      | Inr (r1, b2) \<Rightarrow> Returned (b2\<lparr> random := Some r1 \<rparr>))
               (FillSectorsWithRandomData (snd rb) (fst rb) s c) = Some out"
    using assms False unfolding FillRandomImpl_def Let_def rb_def by simp
  then obtain res where res: "FillSectorsWithRandomData (snd rb) (fst rb) s c = Some res"
    and out: "out = (case res of Inl e \<Rightarrow> Thrown e (snd rb)
                      | Inr (r1, b2) \<Rightarrow> Returned (b2\<lparr> random := Some r1 \<rparr>))"
    by auto
  show ?thesis
  proof (cases res)
    case (Inl e)
    then show ?thesis using out f1 by simp
  next
    case (Inr p)
    obtain r1 b2 where p: "p = (r1, b2)" by (cases p)
    have "frame (snd rb) b2" using res Inr p by (intro FillSectorsWithRandomData_frame) simp
    with f1 have "frame b b2" by (rule frame_trans)
    then have "frame b (b2\<lparr> random := Some r1 \<rparr>)" by (rule frame_random_after)
    then show ?thesis using out Inr p by simp
  qed
qed

lemma FillRandomSeededBySector_loop_frame:
  "FillRandomSeededBySector_loop b rnd seed s i stop = Some out \<Longrightarrow> frame b (state_of out)"
proof (induction b rnd seed s i stop rule: FillRandomSeededBySector_loop.induct)
  case (1 b rnd seed s i stop)
  show ?case
  proof (cases "i < stop")
    case False
    then show ?thesis using "1.prems" by (subst (asm) FillRandomSeededBySector_loop.simps) auto
  next
    case True
    show ?thesis
    proof (cases "FillSectorsWithRandomData b (Seed rnd (seed + of_nat i - of_nat s)) i 1")
      case None
      then show ?thesis
        using "1.prems" True by (subst (asm) FillRandomSeededBySector_loop.simps) simp
    next
      case (Some res)
      show ?thesis
      proof (cases res)
        case (Inl e)
        then show ?thesis
          using "1.prems" True Some by (subst (asm) FillRandomSeededBySector_loop.simps) auto
      next
        case (Inr p)
        obtain rnd1 b1 where p: "p = (rnd1, b1)" by (cases p)
        have run: "FillRandomSeededBySector_loop b1 rnd1 seed s (i + 1) stop = Some out"
          using "1.prems" True Some Inr p
          by (subst (asm) FillRandomSeededBySector_loop.simps) simp
        have "frame b1 (state_of out)"
          using "1.IH" [OF True Some Inr p [symmetric] run] .
        moreover have "frame b b1"
          using Some Inr p by (intro FillSectorsWithRandomData_frame) simp
        ultimately show ?thesis by (rule frame_trans [rotated])
      qed
    qed
  qed
qed

lemma FillRandomSeededBySector_frame:
  "FillRandomSeededBySector now b seed s c = Some out \<Longrightarrow> frame b (state_of out)"
  unfolding FillRandomSeededBySector_def Let_def
  by (auto split: sum.splits option.splits if_splits
      dest!: FillRandomSeededBySector_loop_frame
      intro: frame_trans [OF GetRandom_frame] GetRandom_frame)

lemma Initialize_flag:
  "Initialize h this sc bps = Some out \<Longrightarrow> usePatternMode (state_of out) = getenv_flag h"
  unfolding Initialize_def Let_def getenv_flag_def [symmetric]
  by (auto split: if_splits sum.splits dest!: Fill_frame frame_fields(1)
      simp: CalculateTotalBytesToAllocate_def Let_def)

lemma atoi_1: "atoi ''1'' = 1"
  by (simp add: atoi_def strtol_def isspace_def isdigit_def)

lemma atoi_4294967296: "atoi ''4294967296'' = 0"
  by (simp add: atoi_def strtol_def isspace_def isdigit_def)


lemma getenv_flag_unset: "getenv_flag \<lparr> dmxSimulatorEnabled = None, newBase = a, newBytes = f \<rparr> = False"
  by (simp add: getenv_flag_def)

lemma getenv_flag_1:
  "getenv_flag \<lparr> dmxSimulatorEnabled = Some ''1'', newBase = a, newBytes = f \<rparr> = True"
  by (simp add: getenv_flag_def atoi_1)

lemma getenv_flag_4294967296:
  "getenv_flag \<lparr> dmxSimulatorEnabled = Some ''4294967296'', newBase = a, newBytes = f \<rparr> = False"
  by (simp add: getenv_flag_def atoi_4294967296)

lemma Resize_flag:
  assumes "Resize h b sc bps = Some out"
  shows "usePatternMode (state_of out) = getenv_flag h"
proof (cases "Initialize h (b\<lparr> random := None \<rparr>) sc bps")
  case None
  then show ?thesis using assms by (simp add: Resize_def Let_def)
next
  case (Some o1)
  have f: "usePatternMode (state_of o1) = getenv_flag h" using Some by (rule Initialize_flag)
  show ?thesis
  proof (cases o1)
    case (Returned b2)
    then show ?thesis using assms Some f by (auto simp: Resize_def Let_def split: if_splits)
  next
    case (Thrown e t)
    then show ?thesis using assms Some f by (auto simp: Resize_def Let_def)
  qed
qed

lemma FillAddressOverlay_frame:
  "FillAddressOverlay b v s c = Some out \<Longrightarrow> frame b (state_of out)"
  unfolding FillAddressOverlay_def Let_def
  by (auto split: sum.splits option.splits)

lemma setters_frame:
  "frame b (state_of (SetByte b i v))"
  "frame b (state_of (SetWord b i w))"
  "frame b (state_of (SetWordBigEndian b i w))"
  "frame b (state_of (SetDWord b i dw))"
  "frame b (state_of (SetDWordBigEndian b i dw))"
  "frame b (state_of (SetQWord b i qw))"
  "frame b (state_of (SetQWordBigEndian b i qw))"
  "frame b (state_of (SetBytes b i l))"
  "frame b (state_of (SetString b i str))"
  by (simp_all add: SetByte_def SetWord_def SetWordBigEndian_def SetDWord_def
      SetDWordBigEndian_def SetQWord_def SetQWordBigEndian_def SetBytes_def SetString_def
      split: option.splits sum.splits)

lemma CopyTo_frame: "CopyTo src dest s ds c = Inr d \<Longrightarrow> frame dest d"
  by (auto simp: CopyTo_def Let_def split: sum.splits prod.splits)

lemma CopyFrom_frame: "frame b (state_of (CopyFrom b src s ss c))"
  by (simp add: CopyFrom_def Let_def split: sum.splits prod.splits)

lemma perform_flag:
  assumes "perform h now b op = Some out"
  shows "usePatternMode (state_of out) =
           (case op of OpResize sc bps \<Rightarrow> getenv_flag h | _ \<Rightarrow> usePatternMode b)"
proof (cases op)
  case (OpFill v s c)
  then show ?thesis using assms Fill_frame [THEN frame_fields(1)] by simp
next
  case (OpFillZeros s c)
  then show ?thesis
    using assms Fill_frame [THEN frame_fields(1)] by (simp add: FillZeros_def)
next
  case (OpFillOnes s c)
  then show ?thesis
    using assms Fill_frame [THEN frame_fields(1)] by (simp add: FillOnes_def)
next
  case (OpFillBytes l s c)
  then show ?thesis using assms FillBytes_frame [THEN frame_fields(1)] by simp
next
  case (OpFillIncrementing v s c)
  then show ?thesis using assms FillIncrementing_frame [THEN frame_fields(1)] by simp
next
  case (OpFillDecrementing v s c)
  then show ?thesis using assms FillDecrementing_frame [THEN frame_fields(1)] by simp
next
  case (OpFillAddressOverlay v s c)
  then show ?thesis using assms FillAddressOverlay_frame [THEN frame_fields(1)] by simp
next
  case (OpFillRandom s c)
  then show ?thesis
    using assms FillRandomImpl_frame [THEN frame_fields(1)] by (simp add: FillRandom_def)
next
  case (OpFillRandomSeeded seed s c)
  then show ?thesis
    using assms FillRandomImpl_frame [THEN frame_fields(1)] by (simp add: FillRandomSeeded_def)
next
  case (OpFillRandomSeededBySector seed s c)
  then show ?thesis
    using assms FillRandomSeededBySector_frame [THEN frame_fields(1)] by simp
next
  case (OpSetByte i v)
  then show ?thesis using assms setters_frame(1) [THEN frame_fields(1)] by auto
next
  case (OpSetWord i v)
  then show ?thesis using assms setters_frame(2) [THEN frame_fields(1)] by auto
next
  case (OpSetWordBigEndian i v)
  then show ?thesis using assms setters_frame(3) [THEN frame_fields(1)] by auto
next
  case (OpSetDWord i v)
  then show ?thesis using assms setters_frame(4) [THEN frame_fields(1)] by auto
next
  case (OpSetDWordBigEndian i v)
  then show ?thesis using assms setters_frame(5) [THEN frame_fields(1)] by auto
next
  case (OpSetQWord i v)
  then show ?thesis using assms setters_frame(6) [THEN frame_fields(1)] by auto
next
  case (OpSetQWordBigEndian i v)
  then show ?thesis using assms setters_frame(7) [THEN frame_fields(1)] by auto
next
  case (OpSetBytes i v)
  then show ?thesis using assms setters_frame(8) [THEN frame_fields(1)] by auto
next
  case (OpSetString i v)
  then show ?thesis using assms setters_frame(9) [THEN frame_fields(1)] by auto
next
  case (OpSetName n)
  then show ?thesis using assms by (auto simp: SetName_def)
next
  case (OpCopyTo dest s ds c)
  then show ?thesis using assms by (auto split: sum.splits)
next
  case (OpCopyToThis src s ds c)
  then show ?thesis
    using assms CopyTo_frame [THEN frame_fields(1)] by (auto split: sum.splits)
next
  case (OpCopyFrom src s ss c)
  then show ?thesis using assms CopyFrom_frame [THEN frame_fields(1)] by auto
next
  case (OpCompareTo other s1 s2 c)
  then show ?thesis using assms by (auto split: sum.splits)
next
  case OpIsAllZeros
  then show ?thesis using assms by auto
next
  case (OpCalculateChecksumByte sb n)
  then show ?thesis using assms by (auto split: sum.splits)
next
  case (OpResize sc bps)
  then show ?thesis using assms Resize_flag by simp
qed

section \<open>The random fills\<close>

lemma length_word_bytes [simp]: "length (word_bytes w) = 4"
  by (simp add: word_bytes_def)

lemma length_taus88_bytes [simp]: "length (taus88_bytes g) = 12"
  by (simp add: taus88_bytes_def)

lemma length_store32 [simp]: "length (store32 d i w) = length d"
  by (simp add: store32_def)

lemma nth_store32:
  "j < length d \<Longrightarrow>
     store32 d i w ! j = (if 4 * i \<le> j \<and> j < 4 * i + 4 then word_bytes w ! (j - 4 * i) else d ! j)"
  by (simp add: store32_def nth_memcpy)

lemma Next_n_Suc_right: "Next_n (Suc k) r = snd (Next (Next_n k r))"
  by (induction k arbitrary: r) simp_all

lemma RD_loop_step:
  "i < stop \<Longrightarrow>
     FillSectorsWithRandomData_loop pm bps i stop gb r d =
       FillSectorsWithRandomData_loop pm bps (i + 1) stop
         (if pm \<and> i mod (bps div 4) = 0 then memcpy gb 0 (taus88_bytes (generator r)) 0 12 else gb)
         (snd (Next r))
         (store32
            (if pm \<and> i mod (bps div 4) \<noteq> 0 \<and> i mod (bps div 4) = 6
             then memcpy d (4 * (i - 4))
                    (if pm \<and> i mod (bps div 4) = 0
                     then memcpy gb 0 (taus88_bytes (generator r)) 0 12 else gb) 0 12
             else d)
            i (fst (Next r)))"
  by (subst FillSectorsWithRandomData_loop.simps)
     (simp add: Let_def COMPRESSION_PATTERN_SIZE_IN_BYTE_def)

lemma RD_loop_stop:
  "\<not> i < stop \<Longrightarrow> FillSectorsWithRandomData_loop pm bps i stop gb r d = (r, d)"
  by (subst FillSectorsWithRandomData_loop.simps) simp

lemma RD_loop_length:
  "length (snd (FillSectorsWithRandomData_loop pm bps i stop gb r d)) = length d"
proof (induction "stop - i" arbitrary: i gb r d rule: less_induct)
  case less
  show ?case
  proof (cases "i < stop")
    case True
    then have "stop - (i + 1) < stop - i" by simp
    from less [OF this] show ?thesis unfolding RD_loop_step [OF True] by simp
  next
    case False
    then show ?thesis by (simp add: RD_loop_stop)
  qed
qed

lemma RD_loop_generator:
  "fst (FillSectorsWithRandomData_loop pm bps i stop gb r d) = Next_n (stop - i) r"
proof (induction "stop - i" arbitrary: i gb r d rule: less_induct)
  case less
  show ?case
  proof (cases "i < stop")
    case True
    then have m: "stop - (i + 1) < stop - i" by simp
    have "stop - i = Suc (stop - (i + 1))" using True by simp
    then show ?thesis unfolding RD_loop_step [OF True] less [OF m] by simp
  next
    case False
    then show ?thesis by (simp add: RD_loop_stop)
  qed
qed

lemma RD_loop_agree:
  assumes "length d = length d'" and "\<And>j. j < 4 * i \<Longrightarrow> j < length d \<Longrightarrow> d ! j = d' ! j"
    and "j < 4 * stop" and "j < length d" and "i \<le> stop"
  shows "snd (FillSectorsWithRandomData_loop pm bps i stop gb r d) ! j
         = snd (FillSectorsWithRandomData_loop pm bps i stop gb r d') ! j"
  using assms
proof (induction "stop - i" arbitrary: i gb r d d' rule: less_induct)
  case less
  show ?case
  proof (cases "i < stop")
    case False
    then have "i = stop" using less.prems(5) by simp
    then show ?thesis using less.prems(2) [of j] less.prems(3,4) by (simp add: RD_loop_stop)
  next
    case True
    have m: "stop - (i + 1) < stop - i" using True by simp
    define gb1 where "gb1 = (if pm \<and> i mod (bps div 4) = 0
                             then memcpy gb 0 (taus88_bytes (generator r)) 0 12 else gb)"
    define c where "c = (pm \<and> i mod (bps div 4) \<noteq> 0 \<and> i mod (bps div 4) = 6)"
    define e where "e = store32 (if c then memcpy d (4 * (i - 4)) gb1 0 12 else d) i (fst (Next r))"
    define e' where "e' = store32 (if c then memcpy d' (4 * (i - 4)) gb1 0 12 else d') i (fst (Next r))"
    have le: "length e = length d" by (cases c) (simp_all add: e_def)
    have le': "length e' = length d'" by (cases c) (simp_all add: e'_def)
    have len: "length e = length e'" using less.prems(1) le le' by simp
    have agree: "e ! k = e' ! k" if "k < 4 * (i + 1)" "k < length e" for k
    proof -
      have kl: "k < length d" "k < length d'" using that(2) less.prems(1) le by simp_all
      show ?thesis
      proof (cases "4 * i \<le> k")
        case True
        then show ?thesis using that kl by (cases c) (simp_all add: e_def e'_def nth_store32)
      next
        case False
        then have "d ! k = d' ! k" using less.prems(2) [of k] kl by simp
        then show ?thesis using False kl
          by (cases c) (simp_all add: e_def e'_def nth_store32 nth_memcpy)
      qed
    qed
    have "snd (FillSectorsWithRandomData_loop pm bps (i + 1) stop gb1 (snd (Next r)) e) ! j
          = snd (FillSectorsWithRandomData_loop pm bps (i + 1) stop gb1 (snd (Next r)) e') ! j"
      using m len agree less.prems(3) _ _
    proof (rule less.hyps)
      show "j < length e" using less.prems(4) le by simp
      show "i + 1 \<le> stop" using True by simp
    qed
    then show ?thesis
      unfolding RD_loop_step [OF True] gb1_def [symmetric] c_def [symmetric] e_def e'_def .
  qed
qed


lemma Buffer_inv_frame:
  assumes "Buffer_inv b" and "frame b b'" and "length (dataStart b') = length (dataStart b)"
  shows "Buffer_inv b'"
  using assms frame_fields(2,3) [OF assms(2)] by (simp add: Buffer_inv_def)

lemma valid_range_frame: "frame b b' \<Longrightarrow> valid_range b' s n = valid_range b s n"
  using frame_fields(2) [of b b'] by (simp add: valid_range_def)

lemma FillSectorsWithRandomData_valid:
  assumes inv: "Buffer_inv b" and v: "valid_range b s n"
  shows "\<exists>d'. length d' = length (dataStart b) \<and>
           FillSectorsWithRandomData b r s n =
             Some (Inr (Next_n ((s + range_count b s n) * bytesPerSector b div 4
                                 - s * bytesPerSector b div 4) r,
                        b\<lparr> dataStart := d' \<rparr>)) \<and>
           d' = (if usePatternMode b
                 then the (FillCompressionInfo_loop (bytesPerSector b) eRandomPattern 0
                        (s * bytesPerSector b) ((s + range_count b s n) * bytesPerSector b)
                        (s * bytesPerSector b + 20)
                        (snd (FillSectorsWithRandomData_loop True (bytesPerSector b)
                           (s * bytesPerSector b div 4)
                           ((s + range_count b s n) * bytesPerSector b div 4)
                           (replicate 12 0) r (dataStart b))))
                 else snd (FillSectorsWithRandomData_loop False (bytesPerSector b)
                           (s * bytesPerSector b div 4)
                           ((s + range_count b s n) * bytesPerSector b div 4)
                           (replicate 12 0) r (dataStart b)))"
proof -
  let ?bps = "bytesPerSector b"
  let ?sb = "s * ?bps" and ?eb = "(s + range_count b s n) * ?bps"
  define res where "res = FillSectorsWithRandomData_loop (usePatternMode b) ?bps
                      (?sb div 4) (?eb div 4) (replicate 12 0) r (dataStart b)"
  let ?b1 = "b\<lparr> dataStart := snd res \<rparr>"
  have g: "GetStartAndStopBytesFromSectors b s n = Inr (?sb, ?eb)"
    using inv v by (rule GetStartAndStop_valid)
  have gen: "fst res = Next_n (?eb div 4 - ?sb div 4) r"
    unfolding res_def by (rule RD_loop_generator)
  have len: "length (snd res) = length (dataStart b)"
    unfolding res_def by (rule RD_loop_length)
  have unf: "FillSectorsWithRandomData b r s n =
      (if usePatternMode b
       then map_option (\<lambda>b2. Inr (fst res, b2))
              (FillCompressionInfo ?b1 eRandomPattern 0 ?sb ?eb)
       else Some (Inr (fst res, ?b1)))"
    unfolding FillSectorsWithRandomData_def g res_def
    by (simp add: Let_def COMPRESSION_PATTERN_SIZE_IN_BYTE_def)
  show ?thesis
  proof (cases "usePatternMode b")
    case False
    then show ?thesis unfolding unf using gen len by (simp add: res_def)
  next
    case True
    have pos: "0 < bytesPerSector ?b1" using inv by (simp add: Buffer_inv_def)
    have l0: "unat (0 :: 8 word) \<le> 8" by simp
    from FillCompressionInfo_result [OF pos l0, of eRandomPattern ?sb ?eb]
    obtain d' where run: "FillCompressionInfo_loop ?bps eRandomPattern 0 ?sb ?eb (?sb + 20) (snd res)
                            = Some d'"
      and len': "length d' = length (snd res)"
      and fci: "FillCompressionInfo ?b1 eRandomPattern 0 ?sb ?eb = Some (?b1\<lparr> dataStart := d' \<rparr>)"
      by auto
    have "FillSectorsWithRandomData b r s n = Some (Inr (fst res, b\<lparr> dataStart := d' \<rparr>))"
      unfolding unf fci using True by simp
    moreover have "d' = the (FillCompressionInfo_loop ?bps eRandomPattern 0 ?sb ?eb (?sb + 20)
                               (snd res))"
      using run by simp
    ultimately show ?thesis using True gen len len' by (simp add: res_def)
  qed
qed

lemma FillSectorsWithRandomData_returns:
  assumes inv: "Buffer_inv b" and v: "valid_range b s n"
  shows "\<exists>r' b'. FillSectorsWithRandomData b r s n = Some (Inr (r', b')) \<and> frame b b' \<and>
           length (dataStart b') = length (dataStart b)"
proof -
  from FillSectorsWithRandomData_valid [OF inv v, of r]
  obtain d' r' where "length d' = length (dataStart b)"
    and "FillSectorsWithRandomData b r s n = Some (Inr (r', b\<lparr> dataStart := d' \<rparr>))"
    by blast
  then show ?thesis by (intro exI [of _ r'] exI [of _ "b\<lparr> dataStart := d' \<rparr>"]) simp
qed

lemma FillRandomImpl_returns:
  assumes inv: "Buffer_inv b" and v: "valid_range b s n" and m4: "bytesPerSector b mod 4 = 0"
  shows "\<exists>b'. FillRandomImpl now b s n useSeed seed = Some (Returned b')"
proof -
  define rb where "rb = GetRandom now b useSeed seed"
  have f: "frame b (snd rb)" unfolding rb_def by (rule GetRandom_frame)
  have d: "dataStart (snd rb) = dataStart b" by (simp add: rb_def GetRandom_def Let_def)
  have inv': "Buffer_inv (snd rb)" using inv f by (rule Buffer_inv_frame) (simp add: d)
  have v': "valid_range (snd rb) s n" using v valid_range_frame [OF f] by simp
  from FillSectorsWithRandomData_returns [OF inv' v', of "fst rb"]
  obtain r' b' where "FillSectorsWithRandomData (snd rb) (fst rb) s n = Some (Inr (r', b'))"
    by blast
  then show ?thesis
    unfolding FillRandomImpl_def Let_def rb_def [symmetric] using m4 by simp
qed

lemma FillRandomSeededBySector_loop_returns:
  assumes "Buffer_inv b" and "stop \<le> sectorCount b"
  shows "\<exists>b'. FillRandomSeededBySector_loop b rnd seed s i stop = Some (Returned b')"
  using assms
proof (induction "stop - i" arbitrary: i b rnd rule: less_induct)
  case less
  show ?case
  proof (cases "i < stop")
    case False
    then show ?thesis by (subst FillRandomSeededBySector_loop.simps) simp
  next
    case True
    have v: "valid_range b i 1" using True less.prems(2) by (simp add: valid_range_def)
    from FillSectorsWithRandomData_returns [OF less.prems(1) v]
    obtain r1 b1 where run: "FillSectorsWithRandomData b (Seed rnd (seed + of_nat i - of_nat s)) i 1
                               = Some (Inr (r1, b1))"
      and f: "frame b b1" and len: "length (dataStart b1) = length (dataStart b)"
      by blast
    have inv1: "Buffer_inv b1" using less.prems(1) f len by (rule Buffer_inv_frame)
    have stop1: "stop \<le> sectorCount b1" using less.prems(2) frame_fields(2) [OF f] by simp
    have m: "stop - (i + 1) < stop - i" using True by simp
    from less.hyps [OF m inv1 stop1]
    obtain b' where "FillRandomSeededBySector_loop b1 r1 seed s (i + 1) stop = Some (Returned b')"
      by blast
    then show ?thesis using True run by (subst FillRandomSeededBySector_loop.simps) simp
  qed
qed

lemma FillRandomSeededBySector_returns:
  assumes inv: "Buffer_inv b" and v: "valid_range b s n" and m4: "bytesPerSector b mod 4 = 0"
  shows "\<exists>b'. FillRandomSeededBySector now b seed s n = Some (Returned b')"
proof -
  note val = ValidateSectorRange_valid [OF inv v]
  have sc: "sectorCount b < 2 ^ 63" using inv by (rule Buffer_inv_sectorCount_bound)
  have lt: "s + range_count b s n < 2 ^ 63" using val(3) sc by simp
  then have "s + range_count b s n < 2 ^ 64" by simp
  then have sz: "size_t (s + range_count b s n) = s + range_count b s n" by (rule size_t_id)
  have vcm: "ValidateCounterMax (s + range_count b s n) = None"
    using lt by (simp add: ValidateCounterMax_def)
  define rb where "rb = GetRandom now b True seed"
  have f: "frame b (snd rb)" unfolding rb_def by (rule GetRandom_frame)
  have d: "dataStart (snd rb) = dataStart b" by (simp add: rb_def GetRandom_def Let_def)
  have inv': "Buffer_inv (snd rb)" using inv f by (rule Buffer_inv_frame) (simp add: d)
  have stop: "s + range_count b s n \<le> sectorCount (snd rb)"
    using val(3) frame_fields(2) [OF f] by simp
  from FillRandomSeededBySector_loop_returns [OF inv' stop]
  obtain b' where "FillRandomSeededBySector_loop (snd rb) (Random32_copy (fst rb)) seed s s
                     (s + range_count b s n) = Some (Returned b')"
    by blast
  then show ?thesis
    unfolding FillRandomSeededBySector_def Let_def val(1) sum.case sz vcm option.case
      rb_def [symmetric]
    using m4 by simp
qed


section \<open>The layout FillCompressionInfo leaves in every sector\<close>

lemma FCI_loop_other:
  assumes "0 < bps"
  shows "FillCompressionInfo_loop bps t l sb eb i d = Some d' \<Longrightarrow> p < length d \<Longrightarrow>
           (\<And>k. i + k * bps < eb \<Longrightarrow>
                 p \<noteq> i + k * bps \<and> \<not> (i + k * bps - 12 \<le> p \<and> p < i + k * bps - 12 + unat l)) \<Longrightarrow>
           d' ! p = d ! p"
proof (induction "eb - i" arbitrary: i d rule: less_induct)
  case less
  show ?case
  proof (cases "i < eb")
    case True
    then have m: "eb - (i + bps) < eb - i" using assms by simp
    have run: "FillCompressionInfo_loop bps t l sb eb (i + bps)
                 (FillCompressionInfo_body t l sb i d) = Some d'"
      using less.prems(1) by (simp add: FCI_loop_step [OF True])
    have here: "p \<noteq> i \<and> \<not> (i - 12 \<le> p \<and> p < i - 12 + unat l)"
      using less.prems(3) [of 0] True by simp
    have later: "p \<noteq> i + bps + k * bps \<and>
                 \<not> (i + bps + k * bps - 12 \<le> p \<and> p < i + bps + k * bps - 12 + unat l)"
      if "i + bps + k * bps < eb" for k
      using less.prems(3) [of "Suc k"] that by (simp add: add.assoc)
    have "d' ! p = FillCompressionInfo_body t l sb i d ! p"
      using less.hyps [OF m run _ later] less.prems(2) by simp
    also have "\<dots> = d ! p"
      using less.prems(2) here by (intro FCI_body_nth_other) auto
    finally show ?thesis .
  next
    case False
    then show ?thesis using less.prems(1) by (simp add: FCI_loop_stop)
  qed
qed

lemma sector_offset_unique:
  fixes bps :: nat
  assumes "x < bps" and "y < bps" and "k * bps + x = k' * bps + y"
  shows "k = k' \<and> x = y"
proof -
  have "(k * bps + x) div bps = k" "(k' * bps + y) div bps = k'" using assms(1,2) by simp_all
  then have k: "k = k'" using assms(3) by simp
  then show ?thesis using assms(3) by simp
qed

lemma sector_below:
  fixes bps :: nat
  assumes "k < rc" and "x < bps"
  shows "k * bps + x < rc * bps"
proof -
  have "Suc k * bps \<le> rc * bps" using assms(1) by (intro mult_le_mono1) simp
  then show ?thesis using assms(2) by simp
qed

lemma sector_index:
  fixes bps :: nat
  assumes "k * bps + x < rc * bps"
  shows "k < rc"
proof (rule ccontr)
  assume "\<not> k < rc"
  then have "rc \<le> k" by simp
  then have "rc * bps \<le> k * bps" by (rule mult_le_mono1)
  then show False using assms by arith
qed

lemma FCI_loop_layout:
  assumes bps: "21 \<le> bps" and l: "unat l \<le> 8" and len: "sb + rc * bps \<le> length d"
    and run: "FillCompressionInfo_loop bps t l sb (sb + rc * bps) (sb + 20) d = Some d'"
  shows "\<forall>k < rc. d' ! (sb + k * bps + 20) =
                    (if d ! sb = 0 \<and> t = eFixPattern then d ! (sb + k * bps + 20)
                     else push_bit 4 t OR l)"
    and "t = eFixPattern \<or> t = eIncrementingPattern \<or> t = eDecrementingPattern \<Longrightarrow>
           \<forall>k < rc. \<forall>j < unat l. d' ! (sb + k * bps + 8 + j) = d ! (sb + k * bps + j)"
    and "\<forall>k < rc. \<forall>x < bps. x \<noteq> 20 \<and> \<not> (8 \<le> x \<and> x < 8 + unat l)
                    \<longrightarrow> d' ! (sb + k * bps + x) = d ! (sb + k * bps + x)"
    and "\<forall>p < length d. p < sb \<or> sb + rc * bps \<le> p \<longrightarrow> d' ! p = d ! p"
proof -
  have pos: "0 < bps" using bps by simp
  have inr: "sb + 20 + k * bps < sb + rc * bps" if "k < rc" for k
    using sector_below [OF that, of 20 bps] bps by simp
  have sec: "d' ! (sb + 20 + k * bps) =
           (if d ! sb = 0 \<and> t = eFixPattern then d ! (sb + 20 + k * bps) else push_bit 4 t OR l) \<and>
         (t = eFixPattern \<or> t = eIncrementingPattern \<or> t = eDecrementingPattern \<longrightarrow>
            (\<forall>j < unat l. d' ! (sb + 20 + k * bps - 12 + j) = d ! (sb + 20 + k * bps - 20 + j)))"
    if "k < rc" for k
    using bps l _ len run inr [OF that] by (rule FCI_loop_sector) simp
  show "\<forall>k < rc. d' ! (sb + k * bps + 20) =
                    (if d ! sb = 0 \<and> t = eFixPattern then d ! (sb + k * bps + 20)
                     else push_bit 4 t OR l)"
  proof (intro allI impI)
    fix k assume "k < rc"
    have e: "sb + k * bps + 20 = sb + 20 + k * bps" by simp
    show "d' ! (sb + k * bps + 20) =
            (if d ! sb = 0 \<and> t = eFixPattern then d ! (sb + k * bps + 20) else push_bit 4 t OR l)"
      unfolding e using sec [OF \<open>k < rc\<close>] by blast
  qed
  show "\<forall>k < rc. \<forall>j < unat l. d' ! (sb + k * bps + 8 + j) = d ! (sb + k * bps + j)"
    if t: "t = eFixPattern \<or> t = eIncrementingPattern \<or> t = eDecrementingPattern"
  proof (intro allI impI)
    fix k j assume k: "k < rc" and j: "j < unat l"
    have e: "sb + k * bps + 8 + j = sb + 20 + k * bps - 12 + j"
      "sb + k * bps + j = sb + 20 + k * bps - 20 + j" by simp_all
    show "d' ! (sb + k * bps + 8 + j) = d ! (sb + k * bps + j)"
      unfolding e using sec [OF k] t j by blast
  qed
  have other: "d' ! p = d ! p"
    if p: "p < length d"
      and o: "\<And>k. k < rc \<Longrightarrow> p \<noteq> sb + k * bps + 20 \<and>
                    \<not> (sb + k * bps + 8 \<le> p \<and> p < sb + k * bps + 8 + unat l)" for p
    using pos run p
  proof (rule FCI_loop_other)
    fix k assume "sb + 20 + k * bps < sb + rc * bps"
    then have "k * bps + 20 < rc * bps" by simp
    then have "k < rc" by (rule sector_index)
    from o [OF this]
    show "p \<noteq> sb + 20 + k * bps \<and>
          \<not> (sb + 20 + k * bps - 12 \<le> p \<and> p < sb + 20 + k * bps - 12 + unat l)"
      by (simp add: add.commute add.left_commute)
  qed
  show "\<forall>k < rc. \<forall>x < bps. x \<noteq> 20 \<and> \<not> (8 \<le> x \<and> x < 8 + unat l)
                    \<longrightarrow> d' ! (sb + k * bps + x) = d ! (sb + k * bps + x)"
  proof (intro allI impI)
    fix k x assume k: "k < rc" and x: "x < bps"
      and nx: "x \<noteq> 20 \<and> \<not> (8 \<le> x \<and> x < 8 + unat l)"
    have "k * bps + x < rc * bps" using k x by (rule sector_below)
    then have p: "sb + k * bps + x < length d" using len by simp
    show "d' ! (sb + k * bps + x) = d ! (sb + k * bps + x)"
      using p
    proof (rule other)
      fix k' assume "k' < rc"
      have a: "sb + k * bps + x \<noteq> sb + k' * bps + 20"
      proof
        assume "sb + k * bps + x = sb + k' * bps + 20"
        then have "k * bps + x = k' * bps + 20" by simp
        with sector_offset_unique [OF x, of 20 k k'] bps nx show False by simp
      qed
      have b: "\<not> (sb + k' * bps + 8 \<le> sb + k * bps + x \<and> sb + k * bps + x < sb + k' * bps + 8 + unat l)"
      proof
        assume h: "sb + k' * bps + 8 \<le> sb + k * bps + x \<and> sb + k * bps + x < sb + k' * bps + 8 + unat l"
        define y where "y = k * bps + x - k' * bps"
        have y: "k * bps + x = k' * bps + y" "8 \<le> y" "y < 8 + unat l"
          using h unfolding y_def by arith+
        have "y < bps" using y(3) l bps by simp
        from sector_offset_unique [OF x this y(1)] y(2,3) nx show False by simp
      qed
      show "sb + k * bps + x \<noteq> sb + k' * bps + 20 \<and>
            \<not> (sb + k' * bps + 8 \<le> sb + k * bps + x \<and> sb + k * bps + x < sb + k' * bps + 8 + unat l)"
        using a b by (rule conjI)
    qed
  qed
  show "\<forall>p < length d. p < sb \<or> sb + rc * bps \<le> p \<longrightarrow> d' ! p = d ! p"
  proof (intro allI impI)
    fix p assume p: "p < length d" and out: "p < sb \<or> sb + rc * bps \<le> p"
    show "d' ! p = d ! p"
      using p
    proof (rule other)
      fix k assume k: "k < rc"
      have "k * bps + 20 < rc * bps" using k bps by (intro sector_below) simp_all
      moreover have "k * bps + (8 + unat l) < rc * bps" using k bps l by (intro sector_below) simp_all
      ultimately show "p \<noteq> sb + k * bps + 20 \<and>
            \<not> (sb + k * bps + 8 \<le> p \<and> p < sb + k * bps + 8 + unat l)"
        using out by auto
    qed
  qed
qed


lemma FillCompressionInfo_layout:
  assumes inv: "Buffer_inv b" and v: "valid_range b s n" and bps: "21 \<le> bytesPerSector b"
    and l: "unat l \<le> 8" and len: "length d2 = length (dataStart b)"
  shows "\<exists>d'. FillCompressionInfo (b\<lparr> dataStart := d2 \<rparr>) t l (s * bytesPerSector b)
                 ((s + range_count b s n) * bytesPerSector b) = Some (b\<lparr> dataStart := d' \<rparr>) \<and>
           length d' = length d2 \<and>
           (\<forall>k < range_count b s n.
              d' ! (s * bytesPerSector b + k * bytesPerSector b + 20) =
                (if d2 ! (s * bytesPerSector b) = 0 \<and> t = eFixPattern
                 then d2 ! (s * bytesPerSector b + k * bytesPerSector b + 20)
                 else push_bit 4 t OR l)) \<and>
           (t = eFixPattern \<or> t = eIncrementingPattern \<or> t = eDecrementingPattern \<longrightarrow>
              (\<forall>k < range_count b s n. \<forall>j < unat l.
                 d' ! (s * bytesPerSector b + k * bytesPerSector b + 8 + j)
                   = d2 ! (s * bytesPerSector b + k * bytesPerSector b + j))) \<and>
           (\<forall>k < range_count b s n. \<forall>x < bytesPerSector b.
              x \<noteq> 20 \<and> \<not> (8 \<le> x \<and> x < 8 + unat l) \<longrightarrow>
                d' ! (s * bytesPerSector b + k * bytesPerSector b + x)
                  = d2 ! (s * bytesPerSector b + k * bytesPerSector b + x)) \<and>
           (\<forall>p < length d2. p < s * bytesPerSector b
                 \<or> s * bytesPerSector b + range_count b s n * bytesPerSector b \<le> p
              \<longrightarrow> d' ! p = d2 ! p)"
proof -
  let ?bps = "bytesPerSector b" and ?rc = "range_count b s n"
  let ?sb = "s * ?bps"
  let ?b2 = "b\<lparr> dataStart := d2 \<rparr>"
  have eb: "(s + ?rc) * ?bps = ?sb + ?rc * ?bps" by (simp add: add_mult_distrib)
  have ebl: "?sb + ?rc * ?bps \<le> length d2"
    using range_in_payload(1) [OF inv v] unfolding eb len .
  have pos: "0 < bytesPerSector ?b2" using bps by simp
  from FillCompressionInfo_result [OF pos l, of t ?sb "?sb + ?rc * ?bps"]
  obtain d' where run: "FillCompressionInfo_loop ?bps t l ?sb (?sb + ?rc * ?bps) (?sb + 20) d2 = Some d'"
    and len': "length d' = length d2"
    and res: "FillCompressionInfo ?b2 t l ?sb (?sb + ?rc * ?bps) = Some (b\<lparr> dataStart := d' \<rparr>)"
    by auto
  note lay = FCI_loop_layout [OF bps l ebl run]
  show ?thesis
    unfolding eb using res len' lay by (intro exI [of _ d'] conjI impI) blast+
qed

lemma Fill_unfold:
  assumes inv: "Buffer_inv b" and v: "valid_range b s n"
  shows "Fill b x s n =
           (if usePatternMode b
            then map_option Returned
                   (FillCompressionInfo
                      (b\<lparr> dataStart := memset (dataStart b) (s * bytesPerSector b) x
                                           (range_count b s n * bytesPerSector b) \<rparr>)
                      eFixPattern 1 (s * bytesPerSector b)
                      ((s + range_count b s n) * bytesPerSector b))
            else Some (Returned
                   (b\<lparr> dataStart := memset (dataStart b) (s * bytesPerSector b) x
                                        (range_count b s n * bytesPerSector b) \<rparr>)))"
proof -
  have g: "GetStartAndStopBytesFromSectors b s n
             = Inr (s * bytesPerSector b, (s + range_count b s n) * bytesPerSector b)"
    using inv v by (rule GetStartAndStop_valid)
  have span: "(s + range_count b s n) * bytesPerSector b - s * bytesPerSector b
                = range_count b s n * bytesPerSector b"
    by (simp add: add_mult_distrib)
  show ?thesis unfolding Fill_def g by (simp add: Let_def span)
qed

lemma FillBytes_unfold:
  assumes inv: "Buffer_inv b" and v: "valid_range b s n" and ne: "list \<noteq> []"
  shows "\<exists>d2. length d2 = length (dataStart b) \<and>
           (\<forall>m < range_count b s n * bytesPerSector b.
              d2 ! (s * bytesPerSector b + m) = list ! (m mod length list)) \<and>
           (\<forall>p < length (dataStart b).
              p < s * bytesPerSector b \<or> (s + range_count b s n) * bytesPerSector b \<le> p
              \<longrightarrow> d2 ! p = dataStart b ! p) \<and>
           FillBytes b list s n =
             (if usePatternMode b
              then map_option Returned
                     (FillCompressionInfo (b\<lparr> dataStart := d2 \<rparr>) eFixPattern
                        (of_nat (length list))
                        (s * bytesPerSector b) ((s + range_count b s n) * bytesPerSector b))
              else Some (Returned (b\<lparr> dataStart := d2 \<rparr>)))"
proof -
  let ?bps = "bytesPerSector b" and ?P = "length list"
  let ?sb = "s * ?bps" and ?eb = "(s + range_count b s n) * ?bps"
  let ?d1 = "FillBytes_loop list ?sb ?sb (min (?sb + ?P) ?eb) (dataStart b)"
  have g: "GetStartAndStopBytesFromSectors b s n = Inr (?sb, ?eb)"
    using inv v by (rule GetStartAndStop_valid)
  have ebl: "?eb \<le> length (dataStart b)" and first: "?sb + ?bps \<le> ?eb"
    using range_in_payload [OF inv v] by simp_all
  have P: "0 < ?P" using ne by simp
  have span: "?eb - ?sb = range_count b s n * ?bps" by (simp add: add_mult_distrib)
  have sbeb: "?sb \<le> ?eb" using first by simp
  have d1_in: "?d1 ! (?sb + m) = list ! (m mod ?P)" if "m < ?P" "?sb + m < ?eb" for m
  proof -
    have "?sb + m < length (dataStart b)" using that(2) ebl by simp
    then show ?thesis using that by (simp add: FillBytes_loop_nth)
  qed
  have d1_frame: "?d1 ! p = dataStart b ! p" if "p < length (dataStart b)" "p < ?sb \<or> ?eb \<le> p" for p
    using that by (auto simp: FillBytes_loop_nth)
  have "\<exists>d2. length d2 = length (dataStart b) \<and>
          (\<forall>m < ?eb - ?sb. d2 ! (?sb + m) = list ! (m mod ?P)) \<and>
          (\<forall>p < length (dataStart b). p < ?sb \<or> ?eb \<le> p \<longrightarrow> d2 ! p = dataStart b ! p) \<and>
          (if ?eb > ?sb + ?P
           then FillPattern (b\<lparr> dataStart := ?d1 \<rparr>) ?sb ?P (?sb + ?P) ?eb
           else Some (b\<lparr> dataStart := ?d1 \<rparr>)) = Some (b\<lparr> dataStart := d2 \<rparr>)"
  proof (cases "?eb > ?sb + ?P")
    case False
    have "\<forall>m < ?eb - ?sb. ?d1 ! (?sb + m) = list ! (m mod ?P)"
    proof (intro allI impI)
      fix m assume m: "m < ?eb - ?sb"
      then have "?sb + m < ?eb" by simp
      moreover from this have "m < ?P" using False by simp
      ultimately show "?d1 ! (?sb + m) = list ! (m mod ?P)" using d1_in by blast
    qed
    moreover have "length ?d1 = length (dataStart b)" by simp
    moreover have "(if ?eb > ?sb + ?P
           then FillPattern (b\<lparr> dataStart := ?d1 \<rparr>) ?sb ?P (?sb + ?P) ?eb
           else Some (b\<lparr> dataStart := ?d1 \<rparr>)) = Some (b\<lparr> dataStart := ?d1 \<rparr>)"
      using False by simp
    ultimately show ?thesis using d1_frame by blast
  next
    case True
    have per: "?d1 ! (?sb + m) = ?d1 ! (?sb + m mod ?P)" if "m < ?sb + ?P - ?sb" for m
      using that by simp
    have "\<exists>d'. FillPattern_loop ?sb ?P (?sb + ?P) ?eb ?d1 = Some d' \<and> length d' = length ?d1 \<and>
              (\<forall>m < ?eb - ?sb. d' ! (?sb + m) = d' ! (?sb + m mod ?P)) \<and>
              (\<forall>p < length ?d1. p < ?sb + ?P \<or> ?eb \<le> p \<longrightarrow> d' ! p = ?d1 ! p)"
      using P
    proof (rule FillPattern_loop_periodic)
      show "?P dvd ?P" by simp
      show "0 < ?P" by (rule P)
      show "?P \<le> ?sb + ?P - ?sb" by simp
      show "?P dvd ?sb + ?P - ?sb" by simp
      show "?sb + ?P \<le> ?eb" using True by simp
      show "?eb \<le> length ?d1" using ebl by simp
      show "\<And>m. m < ?sb + ?P - ?sb \<Longrightarrow> ?d1 ! (?sb + m) = ?d1 ! (?sb + m mod ?P)"
        by (rule per)
    qed
    then obtain d' where run: "FillPattern_loop ?sb ?P (?sb + ?P) ?eb ?d1 = Some d'"
      and len: "length d' = length ?d1"
      and per': "\<forall>m < ?eb - ?sb. d' ! (?sb + m) = d' ! (?sb + m mod ?P)"
      and frame: "\<forall>p < length ?d1. p < ?sb + ?P \<or> ?eb \<le> p \<longrightarrow> d' ! p = ?d1 ! p"
      by blast
    have f1: "d' ! (?sb + m) = list ! (m mod ?P)" if m: "m < ?eb - ?sb" for m
    proof -
      have mp: "m mod ?P < ?P" using P by simp
      have in_eb: "?sb + m mod ?P < ?eb" using mp True by simp
      then have "?sb + m mod ?P < length ?d1" using ebl by simp
      then have a: "d' ! (?sb + m mod ?P) = ?d1 ! (?sb + m mod ?P)" using frame mp by simp
      have b: "?d1 ! (?sb + m mod ?P) = list ! (m mod ?P mod ?P)"
        using mp in_eb by (rule d1_in)
      have "d' ! (?sb + m) = d' ! (?sb + m mod ?P)" using per' m by blast
      then show ?thesis unfolding a b by simp
    qed
    have f2: "d' ! p = dataStart b ! p" if "p < length (dataStart b)" "p < ?sb \<or> ?eb \<le> p" for p
    proof -
      have "d' ! p = ?d1 ! p" using frame that by auto
      then show ?thesis using d1_frame [OF that] by simp
    qed
    have "FillPattern (b\<lparr> dataStart := ?d1 \<rparr>) ?sb ?P (?sb + ?P) ?eb
            = Some (b\<lparr> dataStart := d' \<rparr>)"
      using run by (simp add: FillPattern_def)
    then have fp': "(if ?eb > ?sb + ?P
           then FillPattern (b\<lparr> dataStart := ?d1 \<rparr>) ?sb ?P (?sb + ?P) ?eb
           else Some (b\<lparr> dataStart := ?d1 \<rparr>)) = Some (b\<lparr> dataStart := d' \<rparr>)"
      using True by simp
    have len': "length d' = length (dataStart b)" using len by simp
    from len' f1 f2 fp' show ?thesis by blast
  qed
  then obtain d2 where len: "length d2 = length (dataStart b)"
    and f: "\<forall>m < ?eb - ?sb. d2 ! (?sb + m) = list ! (m mod ?P)"
    and frame: "\<forall>p < length (dataStart b). p < ?sb \<or> ?eb \<le> p \<longrightarrow> d2 ! p = dataStart b ! p"
    and fp: "(if ?eb > ?sb + ?P
           then FillPattern (b\<lparr> dataStart := ?d1 \<rparr>) ?sb ?P (?sb + ?P) ?eb
           else Some (b\<lparr> dataStart := ?d1 \<rparr>)) = Some (b\<lparr> dataStart := d2 \<rparr>)"
    by blast
  have unf: "FillBytes b list s n =
      Option.bind
        (if ?eb > ?sb + ?P
         then FillPattern (b\<lparr> dataStart := ?d1 \<rparr>) ?sb ?P (?sb + ?P) ?eb
         else Some (b\<lparr> dataStart := ?d1 \<rparr>))
        (\<lambda>b2. if usePatternMode b2
              then map_option Returned (FillCompressionInfo b2 eFixPattern (of_nat ?P) ?sb ?eb)
              else Some (Returned b2))"
    unfolding FillBytes_def g using ne by (simp add: Let_def)
  have "FillBytes b list s n =
          (if usePatternMode b
           then map_option Returned
                  (FillCompressionInfo (b\<lparr> dataStart := d2 \<rparr>) eFixPattern (of_nat ?P) ?sb ?eb)
           else Some (Returned (b\<lparr> dataStart := d2 \<rparr>)))"
    unfolding unf fp by simp
  then show ?thesis using len f frame unfolding span by blast
qed

lemma range_count_pos: "Buffer_inv b \<Longrightarrow> valid_range b s n \<Longrightarrow> 0 < range_count b s n"
  by (rule ValidateSectorRange_valid(2))

lemma FillBytes_pattern_mode:
  assumes inv: "Buffer_inv b" and pm: "usePatternMode b" and v: "valid_range b s n"
    and bps: "21 \<le> bytesPerSector b" and ne: "list \<noteq> []" and l: "length list \<le> 8"
  shows "\<exists>d2 d'. FillBytes b list s n = Some (Returned (b\<lparr> dataStart := d' \<rparr>)) \<and>
           length d2 = length (dataStart b) \<and> length d' = length (dataStart b) \<and>
           (\<forall>m < range_count b s n * bytesPerSector b.
              d2 ! (s * bytesPerSector b + m) = list ! (m mod length list)) \<and>
           (\<forall>p < length (dataStart b).
              p < s * bytesPerSector b \<or> (s + range_count b s n) * bytesPerSector b \<le> p
              \<longrightarrow> d2 ! p = dataStart b ! p) \<and>
           (\<forall>k < range_count b s n.
              d' ! (s * bytesPerSector b + k * bytesPerSector b + 20) =
                (if list ! 0 = 0 then list ! ((k * bytesPerSector b + 20) mod length list)
                 else push_bit 4 eFixPattern OR of_nat (length list))) \<and>
           (\<forall>k < range_count b s n. \<forall>j < length list.
              d' ! (s * bytesPerSector b + k * bytesPerSector b + 8 + j)
                = d2 ! (s * bytesPerSector b + k * bytesPerSector b + j)) \<and>
           (\<forall>k < range_count b s n. \<forall>x < bytesPerSector b.
              x \<noteq> 20 \<and> \<not> (8 \<le> x \<and> x < 8 + length list) \<longrightarrow>
                d' ! (s * bytesPerSector b + k * bytesPerSector b + x)
                  = d2 ! (s * bytesPerSector b + k * bytesPerSector b + x)) \<and>
           (\<forall>p < length (dataStart b). p < s * bytesPerSector b
                 \<or> s * bytesPerSector b + range_count b s n * bytesPerSector b \<le> p
              \<longrightarrow> d' ! p = d2 ! p)"
proof -
  let ?bps = "bytesPerSector b" and ?rc = "range_count b s n" and ?P = "length list"
  let ?sb = "s * ?bps"
  let ?l = "of_nat ?P :: 8 word"
  have ul: "unat ?l = ?P" using l by (simp add: unat_of_nat)
  then have l8: "unat ?l \<le> 8" using l by simp
  have rc: "0 < ?rc" using inv v by (rule range_count_pos)
  from FillBytes_unfold [OF inv v ne]
  obtain d2 where len: "length d2 = length (dataStart b)"
    and pay: "\<forall>m < ?rc * ?bps. d2 ! (?sb + m) = list ! (m mod ?P)"
    and fr: "\<forall>p < length (dataStart b). p < ?sb \<or> (s + ?rc) * ?bps \<le> p \<longrightarrow> d2 ! p = dataStart b ! p"
    and r: "FillBytes b list s n =
              map_option Returned (FillCompressionInfo (b\<lparr> dataStart := d2 \<rparr>) eFixPattern ?l
                 ?sb ((s + ?rc) * ?bps))"
    using pm by auto
  from FillCompressionInfo_layout [OF inv v bps l8 len, of eFixPattern]
  obtain d' where fci: "FillCompressionInfo (b\<lparr> dataStart := d2 \<rparr>) eFixPattern ?l ?sb
                          ((s + ?rc) * ?bps) = Some (b\<lparr> dataStart := d' \<rparr>)"
    and len': "length d' = length d2"
    and ty: "\<forall>k < ?rc. d' ! (?sb + k * ?bps + 20) =
                (if d2 ! ?sb = 0 \<and> eFixPattern = eFixPattern then d2 ! (?sb + k * ?bps + 20)
                 else push_bit 4 eFixPattern OR ?l)"
    and cp: "\<forall>k < ?rc. \<forall>j < unat ?l. d' ! (?sb + k * ?bps + 8 + j) = d2 ! (?sb + k * ?bps + j)"
    and ot: "\<forall>k < ?rc. \<forall>x < ?bps. x \<noteq> 20 \<and> \<not> (8 \<le> x \<and> x < 8 + unat ?l) \<longrightarrow>
                d' ! (?sb + k * ?bps + x) = d2 ! (?sb + k * ?bps + x)"
    and out: "\<forall>p < length d2. p < ?sb \<or> ?sb + ?rc * ?bps \<le> p \<longrightarrow> d' ! p = d2 ! p"
    by auto
  have first: "d2 ! ?sb = list ! 0"
  proof -
    have "0 < ?rc * ?bps" using rc bps by simp
    then show ?thesis using pay [rule_format, of 0] by simp
  qed
  have at20: "d2 ! (?sb + k * ?bps + 20) = list ! ((k * ?bps + 20) mod ?P)" if "k < ?rc" for k
  proof -
    have "k * ?bps + 20 < ?rc * ?bps" using that bps by (intro sector_below) simp_all
    then show ?thesis using pay [rule_format, of "k * ?bps + 20"] by (simp add: add.assoc)
  qed
  have ty': "\<forall>k < ?rc. d' ! (?sb + k * ?bps + 20) =
                (if list ! 0 = 0 then list ! ((k * ?bps + 20) mod ?P)
                 else push_bit 4 eFixPattern OR ?l)"
    using ty at20 first by simp
  have res: "FillBytes b list s n = Some (Returned (b\<lparr> dataStart := d' \<rparr>))"
    unfolding r fci by simp
  have len'': "length d' = length (dataStart b)" using len' len by simp
  note cp' = cp [unfolded ul] and ot' = ot [unfolded ul] and out' = out [unfolded len]
  from res len len'' pay fr ty' cp' ot' out' show ?thesis by blast
qed


lemma Fill_pattern_mode:
  assumes inv: "Buffer_inv b" and pm: "usePatternMode b" and v: "valid_range b s n"
    and bps: "21 \<le> bytesPerSector b"
  shows "\<exists>d'. Fill b x s n = Some (Returned (b\<lparr> dataStart := d' \<rparr>)) \<and>
           length d' = length (dataStart b) \<and>
           (\<forall>k < range_count b s n.
              d' ! (s * bytesPerSector b + k * bytesPerSector b + 20) =
                (if x = 0 then 0 else push_bit 4 eFixPattern OR 1)) \<and>
           (\<forall>k < range_count b s n. \<forall>y < bytesPerSector b.
              y \<noteq> 20 \<longrightarrow> d' ! (s * bytesPerSector b + k * bytesPerSector b + y) = x) \<and>
           (\<forall>p < length (dataStart b). p < s * bytesPerSector b
                 \<or> s * bytesPerSector b + range_count b s n * bytesPerSector b \<le> p
              \<longrightarrow> d' ! p = dataStart b ! p)"
proof -
  let ?bps = "bytesPerSector b" and ?rc = "range_count b s n"
  let ?sb = "s * ?bps"
  let ?d2 = "memset (dataStart b) ?sb x (?rc * ?bps)"
  have l1: "unat (1 :: 8 word) \<le> 8" by simp
  have len: "length ?d2 = length (dataStart b)" by simp
  have rc: "0 < ?rc" using inv v by (rule range_count_pos)
  have eb: "(s + ?rc) * ?bps = ?sb + ?rc * ?bps" by (simp add: add_mult_distrib)
  have ebl: "?sb + ?rc * ?bps \<le> length (dataStart b)"
    using range_in_payload(1) [OF inv v] unfolding eb .
  have inside: "?d2 ! (?sb + k * ?bps + y) = x" if "k < ?rc" "y < ?bps" for k y
  proof -
    have "k * ?bps + y < ?rc * ?bps" using that by (rule sector_below)
    then show ?thesis using ebl by (simp add: nth_memset)
  qed
  have outside: "?d2 ! p = dataStart b ! p"
    if "p < length (dataStart b)" "p < ?sb \<or> ?sb + ?rc * ?bps \<le> p" for p
    using that by (auto simp: nth_memset)
  have r: "Fill b x s n =
             map_option Returned (FillCompressionInfo (b\<lparr> dataStart := ?d2 \<rparr>) eFixPattern 1
                ?sb ((s + ?rc) * ?bps))"
    unfolding Fill_unfold [OF inv v] using pm by simp
  from FillCompressionInfo_layout [OF inv v bps l1 len, of eFixPattern]
  obtain d' where fci: "FillCompressionInfo (b\<lparr> dataStart := ?d2 \<rparr>) eFixPattern 1 ?sb
                          ((s + ?rc) * ?bps) = Some (b\<lparr> dataStart := d' \<rparr>)"
    and len': "length d' = length ?d2"
    and ty: "\<forall>k < ?rc. d' ! (?sb + k * ?bps + 20) =
                (if ?d2 ! ?sb = 0 \<and> eFixPattern = eFixPattern then ?d2 ! (?sb + k * ?bps + 20)
                 else push_bit 4 eFixPattern OR 1)"
    and cp: "\<forall>k < ?rc. \<forall>j < unat (1 :: 8 word).
                d' ! (?sb + k * ?bps + 8 + j) = ?d2 ! (?sb + k * ?bps + j)"
    and ot: "\<forall>k < ?rc. \<forall>y < ?bps. y \<noteq> 20 \<and> \<not> (8 \<le> y \<and> y < 8 + unat (1 :: 8 word)) \<longrightarrow>
                d' ! (?sb + k * ?bps + y) = ?d2 ! (?sb + k * ?bps + y)"
    and out: "\<forall>p < length ?d2. p < ?sb \<or> ?sb + ?rc * ?bps \<le> p \<longrightarrow> d' ! p = ?d2 ! p"
    by auto
  have first: "?d2 ! ?sb = x" using inside [OF rc, of 0] bps by simp
  have at20: "?d2 ! (?sb + k * ?bps + 20) = x" if "k < ?rc" for k
    using that bps by (intro inside) simp_all
  have ty': "\<forall>k < ?rc. d' ! (?sb + k * ?bps + 20) = (if x = 0 then 0 else push_bit 4 eFixPattern OR 1)"
  proof (intro allI impI)
    fix k assume k: "k < ?rc"
    have "d' ! (?sb + k * ?bps + 20) =
            (if ?d2 ! ?sb = 0 \<and> eFixPattern = eFixPattern then ?d2 ! (?sb + k * ?bps + 20)
             else push_bit 4 eFixPattern OR 1)"
      using ty k by blast
    then show "d' ! (?sb + k * ?bps + 20) = (if x = 0 then 0 else push_bit 4 eFixPattern OR 1)"
      unfolding at20 [OF k] first by simp
  qed
  have pay: "d' ! (?sb + k * ?bps + y) = x" if k: "k < ?rc" and y: "y < ?bps" and ny: "y \<noteq> 20" for k y
  proof (cases "y = 8")
    case True
    have "d' ! (?sb + k * ?bps + 8 + 0) = ?d2 ! (?sb + k * ?bps + 0)"
      using cp k by (intro cp [rule_format]) simp_all
    then show ?thesis using True inside [OF k, of 0] bps by simp
  next
    case False
    then have "d' ! (?sb + k * ?bps + y) = ?d2 ! (?sb + k * ?bps + y)"
      using ot [rule_format, OF k y] ny by simp
    then show ?thesis using inside [OF k y] by simp
  qed
  have out': "\<forall>p < length (dataStart b). p < ?sb \<or> ?sb + ?rc * ?bps \<le> p \<longrightarrow> d' ! p = dataStart b ! p"
    using out outside by simp
  have res: "Fill b x s n = Some (Returned (b\<lparr> dataStart := d' \<rparr>))"
    unfolding r fci by simp
  have len'': "length d' = length (dataStart b)" using len' by simp
  from res len'' ty' pay out' show ?thesis by blast
qed


section \<open>CompareTo\<close>

lemma memcmp_eq_0: "length xs = length ys \<Longrightarrow> memcmp xs ys = 0 \<longleftrightarrow> xs = ys"
  by (induction xs ys rule: list_induct2) auto

lemma CompareTo_scan_first:
  assumes "i \<le> k" and "k < n" and "d ! (sb + k) \<noteq> d2 ! (sb2 + k)"
    and "\<And>j. i \<le> j \<Longrightarrow> j < k \<Longrightarrow> d ! (sb + j) = d2 ! (sb2 + j)"
  shows "CompareTo_scan d sb d2 sb2 i n = (sb + k, sb2 + k)"
  using assms
proof (induction "k - i" arbitrary: i)
  case 0
  then have "i = k" by simp
  then show ?case using "0.prems" by (subst CompareTo_scan.simps) simp
next
  case (Suc m)
  then have lt: "i < k" by simp
  then have eq: "d ! (sb + i) = d2 ! (sb2 + i)" using Suc.prems(4) [of i] by simp
  have "CompareTo_scan d sb d2 sb2 (i + 1) n = (sb + k, sb2 + k)"
  proof (rule Suc.hyps(1))
    show "m = k - (i + 1)" using Suc.hyps(2) by simp
    show "i + 1 \<le> k" using lt by simp
    show "k < n" by (rule Suc.prems(2))
    show "d ! (sb + k) \<noteq> d2 ! (sb2 + k)" by (rule Suc.prems(3))
    show "\<And>j. i + 1 \<le> j \<Longrightarrow> j < k \<Longrightarrow> d ! (sb + j) = d2 ! (sb2 + j)"
      using Suc.prems(4) by simp
  qed
  moreover have "i < n" using lt Suc.prems(2) by simp
  ultimately show ?case using eq by (subst CompareTo_scan.simps) simp
qed

lemma first_mismatch:
  assumes "length xs = length ys" and "xs \<noteq> ys"
  shows "\<exists>k < length xs. xs ! k \<noteq> ys ! k \<and> (\<forall>j < k. xs ! j = ys ! j)"
proof -
  let ?P = "\<lambda>k. k < length xs \<and> xs ! k \<noteq> ys ! k"
  have ex: "\<exists>k. ?P k" using assms by (auto simp: list_eq_iff_nth_eq)
  define k where "k = (LEAST k. ?P k)"
  have Pk: "?P k" unfolding k_def using ex by (rule LeastI_ex)
  have min: "xs ! j = ys ! j" if "j < k" for j
  proof -
    have "\<not> ?P j" using that unfolding k_def by (rule not_less_Least)
    moreover have "j < length xs" using that Pk by simp
    ultimately show ?thesis by simp
  qed
  show ?thesis using Pk min by blast
qed

text \<open>
  Claim C5. For two well-formed buffers and sector ranges that both validators accept (with
  equal sector sizes when a sector count is given, so that the two spans have one length),
  \<open>CompareTo\<close> returns and never throws; the result is the equal \<open>CompareResult\<close>
  exactly when the two compared byte spans are identical; otherwise it is the unequal
  result at the first index \<open>i\<close> of the span where the bytes differ, with
  \<open>firstDifferenceOffset\<close> the absolute offset \<open>startByte + i\<close> in the calling buffer,
  \<open>expectedValue\<close> the calling buffer's byte there and \<open>actualValue\<close> the other
  buffer's byte at its corresponding offset.
\<close>

theorem C5_compareTo:
  assumes inva: "Buffer_inv a" and invb: "Buffer_inv b"
    and va: "valid_range a s1 n" and vb: "valid_range b s2 n"
    and bps: "n \<noteq> 0 \<longrightarrow> bytesPerSector a = bytesPerSector b"
  shows "\<exists>r. CompareTo a b s1 s2 n = Inr r \<and>
           (areEqual r \<longleftrightarrow>
              span a (s1 * bytesPerSector a) (compare_length a b s1 s2 n)
                = span b (s2 * bytesPerSector b) (compare_length a b s1 s2 n)) \<and>
           (span a (s1 * bytesPerSector a) (compare_length a b s1 s2 n)
              = span b (s2 * bytesPerSector b) (compare_length a b s1 s2 n)
            \<longrightarrow> r = CompareResult_equal) \<and>
           (span a (s1 * bytesPerSector a) (compare_length a b s1 s2 n)
              \<noteq> span b (s2 * bytesPerSector b) (compare_length a b s1 s2 n)
            \<longrightarrow> (\<exists>i < compare_length a b s1 s2 n.
                   (\<forall>j < i. dataStart a ! (s1 * bytesPerSector a + j)
                             = dataStart b ! (s2 * bytesPerSector b + j)) \<and>
                   dataStart a ! (s1 * bytesPerSector a + i)
                     \<noteq> dataStart b ! (s2 * bytesPerSector b + i) \<and>
                   r = CompareResult_unequal (s1 * bytesPerSector a + i)
                         (dataStart a ! (s1 * bytesPerSector a + i))
                         (dataStart b ! (s2 * bytesPerSector b + i))))"
proof -
  let ?sa = "s1 * bytesPerSector a" and ?sb = "s2 * bytesPerSector b"
  let ?ea = "(s1 + range_count a s1 n) * bytesPerSector a"
  let ?eb = "(s2 + range_count b s2 n) * bytesPerSector b"
  let ?L = "compare_length a b s1 s2 n"
  let ?A = "span a ?sa ?L" and ?B = "span b ?sb ?L"
  have ga: "GetStartAndStopBytesFromSectors a s1 n = Inr (?sa, ?ea)"
    using inva va by (rule GetStartAndStop_valid)
  have gb: "GetStartAndStopBytesFromSectors b s2 n = Inr (?sb, ?eb)"
    using invb vb by (rule GetStartAndStop_valid)
  have da: "?ea - ?sa = range_count a s1 n * bytesPerSector a" by (simp add: add_mult_distrib)
  have db: "?eb - ?sb = range_count b s2 n * bytesPerSector b" by (simp add: add_mult_distrib)
  have same: "n \<noteq> 0 \<Longrightarrow> ?eb - ?sb = ?ea - ?sa"
    using bps unfolding da db by (simp add: range_count_def)
  have L: "(if n = 0 then min (?ea - ?sa) (?eb - ?sb) else ?ea - ?sa) = ?L"
    unfolding da db by (simp add: compare_length_def range_count_def)
  have ea: "?ea = ?sa + range_count a s1 n * bytesPerSector a" by (simp add: add_mult_distrib)
  have eb: "?eb = ?sb + range_count b s2 n * bytesPerSector b" by (simp add: add_mult_distrib)
  have La: "?sa + ?L \<le> length (dataStart a)"
  proof -
    have "?L \<le> range_count a s1 n * bytesPerSector a"
      by (simp add: compare_length_def range_count_def)
    then have "?sa + ?L \<le> ?ea" unfolding ea by simp
    then show ?thesis using range_in_payload(1) [OF inva va] by simp
  qed
  have Lb: "?sb + ?L \<le> length (dataStart b)"
  proof -
    have "?L \<le> range_count b s2 n * bytesPerSector b" using bps
      by (auto simp: compare_length_def range_count_def)
    then have "?sb + ?L \<le> ?eb" unfolding eb by simp
    then show ?thesis using range_in_payload(1) [OF invb vb] by simp
  qed
  have lenA: "length ?A = ?L" using La by (simp add: span_def)
  have lenB: "length ?B = ?L" using Lb by (simp add: span_def)
  have nthA: "?A ! j = dataStart a ! (?sa + j)" if "j < ?L" for j
    using that La by (simp add: span_def)
  have nthB: "?B ! j = dataStart b ! (?sb + j)" if "j < ?L" for j
    using that Lb by (simp add: span_def)
  have unf: "CompareTo a b s1 s2 n =
      (if memcmp ?A ?B = 0 then Inr CompareResult_equal
       else Inr (CompareResult_unequal
                  (fst (CompareTo_scan (dataStart a) ?sa (dataStart b) ?sb 0 ?L))
                  (dataStart a ! fst (CompareTo_scan (dataStart a) ?sa (dataStart b) ?sb 0 ?L))
                  (dataStart b ! snd (CompareTo_scan (dataStart a) ?sa (dataStart b) ?sb 0 ?L))))"
    using same unfolding CompareTo_def ga gb sum.case prod.case L Let_def span_def
    by auto
  have mc: "memcmp ?A ?B = 0 \<longleftrightarrow> ?A = ?B"
    by (rule memcmp_eq_0) (simp add: lenA lenB)
  show ?thesis
  proof (cases "?A = ?B")
    case True
    then show ?thesis unfolding unf using mc by (simp add: CompareResult_equal_def)
  next
    case False
    have len: "length ?A = length ?B" by (simp add: lenA lenB)
    obtain k where k: "k < length ?A" and kne: "?A ! k \<noteq> ?B ! k"
      and kmin: "\<And>j. j < k \<Longrightarrow> ?A ! j = ?B ! j"
      using first_mismatch [OF len False] by blast
    have kL: "k < ?L" using k lenA by simp
    have ne: "dataStart a ! (?sa + k) \<noteq> dataStart b ! (?sb + k)"
      using kne nthA [OF kL] nthB [OF kL] by simp
    have eqs: "dataStart a ! (?sa + j) = dataStart b ! (?sb + j)" if "j < k" for j
    proof -
      have "j < ?L" using that kL by simp
      then show ?thesis using kmin [OF that] nthA nthB by simp
    qed
    have scan: "CompareTo_scan (dataStart a) ?sa (dataStart b) ?sb 0 ?L = (?sa + k, ?sb + k)"
      by (rule CompareTo_scan_first) (use kL ne eqs in auto)
    have r: "CompareTo a b s1 s2 n =
        Inr (CompareResult_unequal (?sa + k) (dataStart a ! (?sa + k)) (dataStart b ! (?sb + k)))"
      unfolding unf scan using mc False by simp
    show ?thesis
      unfolding r using False kL ne eqs
      by (auto simp: CompareResult_unequal_def)
  qed
qed

theorem C5_compareTo_witness:
  "Buffer_inv
     \<lparr> name = [], dataStart = [1, 2, 3, 4, 5, 6, 7, 8], bytesPerSector = 4,
       sectorCount = 2, random = None, allocatedByteCount = 12287,
       dataBufferSize = 4096, usePatternMode = False \<rparr> \<and>
   Buffer_inv
     \<lparr> name = [], dataStart = [1, 2, 3, 4, 5, 9, 7, 8], bytesPerSector = 4,
       sectorCount = 2, random = None, allocatedByteCount = 12287,
       dataBufferSize = 4096, usePatternMode = False \<rparr> \<and>
   valid_range
     \<lparr> name = [], dataStart = [1, 2, 3, 4, 5, 6, 7, 8], bytesPerSector = 4,
       sectorCount = 2, random = None, allocatedByteCount = 12287,
       dataBufferSize = 4096, usePatternMode = False \<rparr> 1 1 \<and>
   valid_range
     \<lparr> name = [], dataStart = [1, 2, 3, 4, 5, 9, 7, 8], bytesPerSector = 4,
       sectorCount = 2, random = None, allocatedByteCount = 12287,
       dataBufferSize = 4096, usePatternMode = False \<rparr> 1 1 \<and>
   CompareTo
     \<lparr> name = [], dataStart = [1, 2, 3, 4, 5, 6, 7, 8], bytesPerSector = 4,
       sectorCount = 2, random = None, allocatedByteCount = 12287,
       dataBufferSize = 4096, usePatternMode = False \<rparr>
     \<lparr> name = [], dataStart = [1, 2, 3, 4, 5, 9, 7, 8], bytesPerSector = 4,
       sectorCount = 2, random = None, allocatedByteCount = 12287,
       dataBufferSize = 4096, usePatternMode = False \<rparr> 1 1 1
     = Inr (CompareResult_unequal 5 6 9)"
  using C5_compareTo
    [of "\<lparr> name = [], dataStart = [1, 2, 3, 4, 5, 6, 7, 8], bytesPerSector = 4,
       sectorCount = 2, random = None, allocatedByteCount = 12287,
       dataBufferSize = 4096, usePatternMode = False \<rparr>"
        "\<lparr> name = [], dataStart = [1, 2, 3, 4, 5, 9, 7, 8], bytesPerSector = 4,
       sectorCount = 2, random = None, allocatedByteCount = 12287,
       dataBufferSize = 4096, usePatternMode = False \<rparr>" 1 1 1]
  by (simp add: Buffer_inv_def valid_range_def CompareTo_def GetStartAndStopBytesFromSectors_def
      ValidateSectorRangeAndGetSectorCount_def GetTotalBytes_def size_t_def
      CompareResult_unequal_def CompareTo_scan.simps)

section \<open>FillIncrementing\<close>

text \<open>
  Claim C3, as the code has it. For a well-formed buffer whose pattern-mode flag is off and a
  sector range the validator accepts, \<open>FillIncrementing(start, startSector, count)\<close>
  returns; the first sector of the range holds \<open>start, start + 1, \<dots>\<close> with 8-bit
  wrap-around; every byte at offset \<open>m\<close> of the range equals the byte at offset
  \<open>m mod bytesPerSector\<close>, so the rest of the range repeats the first sector; the bytes
  outside the range and the other members of the object are unchanged.
\<close>

theorem C3_fillIncrementing:
  assumes inv: "Buffer_inv b" and npm: "\<not> usePatternMode b" and v: "valid_range b s n"
  shows "\<exists>b'. FillIncrementing b v0 s n = Some (Returned b') \<and>
           b' = b\<lparr> dataStart := dataStart b' \<rparr> \<and>
           length (dataStart b') = length (dataStart b) \<and>
           (\<forall>m < bytesPerSector b. dataStart b' ! (s * bytesPerSector b + m) = v0 + of_nat m) \<and>
           (\<forall>m < range_count b s n * bytesPerSector b.
              dataStart b' ! (s * bytesPerSector b + m)
                = dataStart b' ! (s * bytesPerSector b + m mod bytesPerSector b)) \<and>
           (\<forall>p < length (dataStart b).
              p < s * bytesPerSector b \<or> (s + range_count b s n) * bytesPerSector b \<le> p
              \<longrightarrow> dataStart b' ! p = dataStart b ! p)"
proof -
  from FillIncrementing_unfold [OF inv v, of v0]
  obtain d2 where len: "length d2 = length (dataStart b)"
    and f: "\<forall>m < bytesPerSector b. d2 ! (s * bytesPerSector b + m) = v0 + of_nat m"
    and per: "\<forall>m < range_count b s n * bytesPerSector b.
              d2 ! (s * bytesPerSector b + m) = d2 ! (s * bytesPerSector b + m mod bytesPerSector b)"
    and frame: "\<forall>p < length (dataStart b).
              p < s * bytesPerSector b \<or> (s + range_count b s n) * bytesPerSector b \<le> p
              \<longrightarrow> d2 ! p = dataStart b ! p"
    and r: "FillIncrementing b v0 s n =
             (if usePatternMode b
              then map_option Returned
                     (FillCompressionInfo (b\<lparr> dataStart := d2 \<rparr>) eIncrementingPattern 1
                        (s * bytesPerSector b) ((s + range_count b s n) * bytesPerSector b))
              else Some (Returned (b\<lparr> dataStart := d2 \<rparr>)))"
    by blast
  let ?b' = "b\<lparr> dataStart := d2 \<rparr>"
  have r': "FillIncrementing b v0 s n = Some (Returned ?b')" using r npm by simp
  have d: "dataStart ?b' = d2" by simp
  have self: "?b' = b\<lparr> dataStart := dataStart ?b' \<rparr>" by simp
  show ?thesis
  proof (intro exI [of _ ?b'] conjI)
    show "FillIncrementing b v0 s n = Some (Returned ?b')" by (rule r')
    show "?b' = b\<lparr> dataStart := dataStart ?b' \<rparr>" by (rule self)
    show "length (dataStart ?b') = length (dataStart b)" unfolding d by (rule len)
    show "\<forall>m < bytesPerSector b. dataStart ?b' ! (s * bytesPerSector b + m) = v0 + of_nat m"
      unfolding d by (rule f)
    show "\<forall>m < range_count b s n * bytesPerSector b.
              dataStart ?b' ! (s * bytesPerSector b + m)
                = dataStart ?b' ! (s * bytesPerSector b + m mod bytesPerSector b)"
      unfolding d by (rule per)
    show "\<forall>p < length (dataStart b).
              p < s * bytesPerSector b \<or> (s + range_count b s n) * bytesPerSector b \<le> p
              \<longrightarrow> dataStart ?b' ! p = dataStart b ! p"
      unfolding d by (rule frame)
  qed
qed


theorem C3_fillIncrementing_witness:
  "Buffer_inv (zero_buffer 2 32 False) \<and> \<not> usePatternMode (zero_buffer 2 32 False) \<and>
   valid_range (zero_buffer 2 32 False) 0 0 \<and>
   (\<exists>b'. FillIncrementing (zero_buffer 2 32 False) 250 0 0 = Some (Returned b') \<and>
         dataStart b' ! 10 = 4 \<and> dataStart b' ! 42 = 4)"
proof -
  let ?B = "zero_buffer 2 32 False"
  have inv: "Buffer_inv ?B" by (simp add: Buffer_inv_def zero_buffer_def)
  have npm: "\<not> usePatternMode ?B" by (simp add: zero_buffer_def)
  have v: "valid_range ?B 0 0" by (simp add: valid_range_def zero_buffer_def)
  have bps: "bytesPerSector ?B = 32" by (simp add: zero_buffer_def)
  have rc: "range_count ?B 0 0 = 2" by (simp add: range_count_def zero_buffer_def)
  from C3_fillIncrementing [OF inv npm v, of 250]
  obtain b' where r: "FillIncrementing ?B 250 0 0 = Some (Returned b')"
    and f: "\<forall>m < bytesPerSector ?B. dataStart b' ! (0 * bytesPerSector ?B + m) = 250 + of_nat m"
    and per: "\<forall>m < range_count ?B 0 0 * bytesPerSector ?B.
                dataStart b' ! (0 * bytesPerSector ?B + m)
                  = dataStart b' ! (0 * bytesPerSector ?B + m mod bytesPerSector ?B)"
    by blast
  have a: "dataStart b' ! 10 = 4" using f [rule_format, of 10] by (simp add: bps)
  have "dataStart b' ! 42 = dataStart b' ! (42 mod 32)"
    using per [rule_format, of 42] by (simp add: bps rc)
  then have "dataStart b' ! 42 = 4" using a by simp
  with inv npm v r a show ?thesis by blast
qed

text \<open>
  Claim C3 as stated, for every buffer, fails in pattern mode: after \<open>FillIncrementing(0)\<close>
  on a buffer of two sectors of 32 bytes the byte at offset 8 is 0, the copy of the sector's
  first byte, and the byte at offset 20 is the type and length byte 0x11, where the
  incrementing sequence has 8 and 20.
\<close>

theorem C3_pattern_mode_overwrites:
  "\<exists>b'. FillIncrementing (zero_buffer 2 32 True) 0 0 0 = Some (Returned b') \<and>
        dataStart b' ! 8 = 0 \<and> dataStart b' ! 20 = 17"
proof -
  let ?B = "zero_buffer 2 32 True"
  have inv: "Buffer_inv ?B" by (simp add: Buffer_inv_def zero_buffer_def)
  have v: "valid_range ?B 0 0" by (simp add: valid_range_def zero_buffer_def)
  have bps: "bytesPerSector ?B = 32" by (simp add: zero_buffer_def)
  have rc: "range_count ?B 0 0 = 2" by (simp add: range_count_def zero_buffer_def)
  have pm: "usePatternMode ?B" by (simp add: zero_buffer_def)
  from FillIncrementing_unfold [OF inv v, of 0]
  obtain d2 where len: "length d2 = length (dataStart ?B)"
    and f: "\<forall>m < bytesPerSector ?B. d2 ! (0 * bytesPerSector ?B + m) = 0 + of_nat m"
    and r: "FillIncrementing ?B 0 0 0 =
              (if usePatternMode ?B
               then map_option Returned
                      (FillCompressionInfo (?B\<lparr> dataStart := d2 \<rparr>) eIncrementingPattern 1
                         (0 * bytesPerSector ?B) ((0 + range_count ?B 0 0) * bytesPerSector ?B))
               else Some (Returned (?B\<lparr> dataStart := d2 \<rparr>)))"
    by blast
  have len64: "length d2 = 64" using len by (simp add: zero_buffer_def)
  have d20: "d2 ! 0 = 0" using f [rule_format, of 0] by (simp add: bps)
  let ?b2 = "?B\<lparr> dataStart := d2 \<rparr>"
  have r2: "FillIncrementing ?B 0 0 0 =
              map_option Returned (FillCompressionInfo ?b2 eIncrementingPattern 1 0 64)"
    using r pm by (simp add: bps rc)
  have l1: "unat (1 :: 8 word) \<le> 8" by simp
  have pos: "0 < bytesPerSector ?b2" by (simp add: bps)
  from FillCompressionInfo_result [OF pos l1, of eIncrementingPattern 0 64]
  obtain d' where run: "FillCompressionInfo_loop 32 eIncrementingPattern 1 0 64 20 d2 = Some d'"
    and fci: "FillCompressionInfo ?b2 eIncrementingPattern 1 0 64 = Some (?b2\<lparr> dataStart := d' \<rparr>)"
    by (auto simp: bps)
  have sect: "d' ! (20 + 0 * 32) =
           (if d2 ! 0 = 0 \<and> eIncrementingPattern = eFixPattern then d2 ! (20 + 0 * 32)
            else push_bit 4 eIncrementingPattern OR 1) \<and>
         (eIncrementingPattern = eFixPattern \<or> eIncrementingPattern = eIncrementingPattern \<or>
          eIncrementingPattern = eDecrementingPattern \<longrightarrow>
            (\<forall>j < unat (1 :: 8 word). d' ! (20 + 0 * 32 - 12 + j) = d2 ! (20 + 0 * 32 - 20 + j)))"
    by (rule FCI_loop_sector [OF _ l1 _ _ run]) (simp_all add: len64)
  have b20: "d' ! 20 = 17"
    using sect by (simp add: eIncrementingPattern_def eFixPattern_def)
  have b8: "d' ! 8 = 0"
    using sect d20 by simp
  have "FillIncrementing ?B 0 0 0 = Some (Returned (?b2\<lparr> dataStart := d' \<rparr>))"
    unfolding r2 fci by simp
  then show ?thesis using b8 b20 by (intro exI [of _ "?b2\<lparr> dataStart := d' \<rparr>"]) simp
qed

section \<open>Resize\<close>

text \<open>
  Claim C7. For a well-formed buffer and a new shape that \<open>Initialize\<close> accepts (both
  dimensions at least one, a total an allocation can hold), \<open>Resize\<close> returns an object of
  the new shape whose leading \<open>min(oldTotal, newTotal)\<close> payload bytes are the old ones,
  whose remaining payload bytes are zero, and whose generator slot is empty.
\<close>

theorem C7_resize:
  assumes inv: "Buffer_inv b" and sc: "1 \<le> sc" and bps: "1 \<le> bps" and tot: "sc * bps < 2 ^ 63"
  shows "\<exists>b'. Resize h b sc bps = Some (Returned b') \<and>
           sectorCount b' = sc \<and> bytesPerSector b' = bps \<and>
           length (dataStart b') = sc * bps \<and>
           (\<forall>j < min (sectorCount b * bytesPerSector b) (sc * bps).
              dataStart b' ! j = dataStart b ! j) \<and>
           (\<forall>j. min (sectorCount b * bytesPerSector b) (sc * bps) \<le> j \<and> j < sc * bps
              \<longrightarrow> dataStart b' ! j = 0) \<and>
           random b' = None"
proof -
  define keep where "keep = min (sectorCount b * bytesPerSector b) (sc * bps)"
  define d' where "d' = memcpy (replicate (sc * bps) 0) 0 (take keep (dataStart b)) 0 keep"
  let ?b' = "(zero_buffer sc bps (getenv_flag h))\<lparr> dataStart := d' \<rparr>"
  have r: "Resize h b sc bps = Some (Returned ?b')"
    unfolding d'_def keep_def using inv sc bps tot by (rule Resize_valid)
  have keepn: "keep \<le> sc * bps" by (simp add: keep_def)
  have low: "d' ! j = dataStart b ! j" if "j < keep" for j
  proof -
    have "j < length (replicate (sc * bps) (0 :: 8 word))" using that keepn by simp
    then have "d' ! j = take keep (dataStart b) ! (0 + (j - 0))"
      unfolding d'_def using that by (intro nth_memcpy_in) simp_all
    then show ?thesis using that by simp
  qed
  have high: "d' ! j = 0" if "keep \<le> j" "j < sc * bps" for j
  proof -
    have "d' ! j = replicate (sc * bps) (0 :: 8 word) ! j"
      unfolding d'_def using that by (intro nth_memcpy_out) simp_all
    then show ?thesis using that by simp
  qed
  show ?thesis
  proof (intro exI [of _ ?b'] conjI)
    show "Resize h b sc bps = Some (Returned ?b')" by (rule r)
    show "sectorCount ?b' = sc" by (simp add: zero_buffer_def)
    show "bytesPerSector ?b' = bps" by (simp add: zero_buffer_def)
    show "length (dataStart ?b') = sc * bps" by (simp add: d'_def)
    show "\<forall>j < min (sectorCount b * bytesPerSector b) (sc * bps).
            dataStart ?b' ! j = dataStart b ! j"
      using low by (simp add: keep_def)
    show "\<forall>j. min (sectorCount b * bytesPerSector b) (sc * bps) \<le> j \<and> j < sc * bps
            \<longrightarrow> dataStart ?b' ! j = 0"
      using high by (simp add: keep_def)
    show "random ?b' = None" by (simp add: zero_buffer_def)
  qed
qed

theorem C7_resize_witness:
  "Buffer_inv ((zero_buffer 2 4 False)
      \<lparr> dataStart := [1, 2, 3, 4, 5, 6, 7, 8], random := Some (Random32_seeded 7) \<rparr>) \<and>
   (\<exists>b'. Resize \<lparr> dmxSimulatorEnabled = None, newBase = 4096, newBytes = (\<lambda>j. 205) \<rparr>
           ((zero_buffer 2 4 False)
              \<lparr> dataStart := [1, 2, 3, 4, 5, 6, 7, 8], random := Some (Random32_seeded 7) \<rparr>)
           3 4 = Some (Returned b') \<and>
         sectorCount b' = 3 \<and> dataStart b' ! 7 = 8 \<and> dataStart b' ! 8 = 0 \<and>
         dataStart b' ! 11 = 0 \<and> random b' = None)"
proof -
  let ?B = "(zero_buffer 2 4 False)
      \<lparr> dataStart := [1, 2, 3, 4, 5, 6, 7, 8], random := Some (Random32_seeded 7) \<rparr>"
  let ?h = "\<lparr> dmxSimulatorEnabled = None, newBase = 4096, newBytes = (\<lambda>j. 205 :: 8 word) \<rparr>"
  have inv: "Buffer_inv ?B" by (simp add: Buffer_inv_def zero_buffer_def)
  have sc: "(1 :: nat) \<le> 3" and bps: "(1 :: nat) \<le> 4" and tot: "(3 :: nat) * 4 < 2 ^ 63"
    by simp_all
  have keep: "min (sectorCount ?B * bytesPerSector ?B) (3 * 4) = 8"
    by (simp add: zero_buffer_def)
  from C7_resize [OF inv sc bps tot, of ?h]
  obtain b' where r: "Resize ?h ?B 3 4 = Some (Returned b')"
    and s: "sectorCount b' = 3"
    and low: "\<forall>j < min (sectorCount ?B * bytesPerSector ?B) (3 * 4). dataStart b' ! j = dataStart ?B ! j"
    and high: "\<forall>j. min (sectorCount ?B * bytesPerSector ?B) (3 * 4) \<le> j \<and> j < 3 * 4
                 \<longrightarrow> dataStart b' ! j = 0"
    and rnd: "random b' = None"
    by blast
  have a: "dataStart b' ! 7 = 8" using low [rule_format, of 7] unfolding keep by simp
  have b: "dataStart b' ! 8 = 0" using high [rule_format, of 8] unfolding keep by simp
  have c: "dataStart b' ! 11 = 0" using high [rule_format, of 11] unfolding keep by simp
  from inv r s a b c rnd show ?thesis by blast
qed


section \<open>Copy construction\<close>

text \<open>
  Claim C8, as the code has it. For a well-formed buffer whose allocation size is the one
  \<open>CalculateTotalBytesToAllocate\<close> sets, the copy constructor returns an object with the
  same payload bytes, an equal generator state when one is present, and the same
  \<open>sectorCount\<close>, \<open>bytesPerSector\<close>, pattern-mode flag and allocation sizes; the name
  is not copied: the copy's name is the empty string.
\<close>

theorem C8_copy_constructor:
  assumes "Buffer_inv b" and "dataBufferSize b + 4095 + 4096 \<le> allocatedByteCount b"
  shows "\<exists>c. Buffer_copy h b = Inr c \<and> dataStart c = dataStart b \<and> random c = random b \<and>
           sectorCount c = sectorCount b \<and> bytesPerSector c = bytesPerSector b \<and>
           usePatternMode c = usePatternMode b \<and> name c = [] \<and> c = b\<lparr> name := [] \<rparr>"
  using Buffer_copy_valid [OF assms, of h] by simp

theorem C8_copy_constructor_witness:
  "Buffer_inv ((zero_buffer 2 4 True)
      \<lparr> name := ''scratch'', dataStart := [1, 2, 3, 4, 5, 6, 7, 8],
        random := Some (Random32_seeded 7) \<rparr>) \<and>
   dataBufferSize ((zero_buffer 2 4 True)
      \<lparr> name := ''scratch'', dataStart := [1, 2, 3, 4, 5, 6, 7, 8],
        random := Some (Random32_seeded 7) \<rparr>) + 4095 + 4096
     \<le> allocatedByteCount ((zero_buffer 2 4 True)
      \<lparr> name := ''scratch'', dataStart := [1, 2, 3, 4, 5, 6, 7, 8],
        random := Some (Random32_seeded 7) \<rparr>) \<and>
   (\<exists>c. Buffer_copy \<lparr> dmxSimulatorEnabled = None, newBase = 4096, newBytes = (\<lambda>j. 205) \<rparr>
          ((zero_buffer 2 4 True)
             \<lparr> name := ''scratch'', dataStart := [1, 2, 3, 4, 5, 6, 7, 8],
               random := Some (Random32_seeded 7) \<rparr>) = Inr c \<and>
        dataStart c = [1, 2, 3, 4, 5, 6, 7, 8] \<and> random c = Some (Random32_seeded 7) \<and>
        usePatternMode c \<and> name c = [])"
proof -
  let ?B = "(zero_buffer 2 4 True)
      \<lparr> name := ''scratch'', dataStart := [1, 2, 3, 4, 5, 6, 7, 8],
        random := Some (Random32_seeded 7) \<rparr>"
  have inv: "Buffer_inv ?B" by (simp add: Buffer_inv_def zero_buffer_def)
  have alloc: "dataBufferSize ?B + 4095 + 4096 \<le> allocatedByteCount ?B"
    by (simp add: zero_buffer_def)
  from C8_copy_constructor [OF inv alloc]
  show ?thesis using inv by (simp add: zero_buffer_def)
qed

text \<open>
  Claim C8 as stated fails on the name: the copy of a buffer named \<open>scratch\<close> has the
  empty name.
\<close>

theorem C8_name_not_copied:
  "name ((zero_buffer 2 4 False) \<lparr> name := ''scratch'' \<rparr>) = ''scratch'' \<and>
   (\<exists>c. Buffer_copy \<lparr> dmxSimulatorEnabled = None, newBase = 4096, newBytes = (\<lambda>j. 205) \<rparr>
          ((zero_buffer 2 4 False) \<lparr> name := ''scratch'' \<rparr>) = Inr c \<and>
        name c = [] \<and> name c \<noteq> name ((zero_buffer 2 4 False) \<lparr> name := ''scratch'' \<rparr>))"
proof -
  let ?B = "(zero_buffer 2 4 False) \<lparr> name := ''scratch'' \<rparr>"
  have inv: "Buffer_inv ?B" by (simp add: Buffer_inv_def zero_buffer_def)
  have alloc: "dataBufferSize ?B + 4095 + 4096 \<le> allocatedByteCount ?B"
    by (simp add: zero_buffer_def)
  from Buffer_copy_valid [OF inv alloc]
  show ?thesis by simp
qed

section \<open>The pattern-mode flag\<close>

text \<open>
  Claim C9, as the code has it. The pattern-mode flag of a constructed buffer is the value
  read from \<open>DMX_SIMULATOR_ENABLED\<close> by \<open>Initialize\<close> (on when \<open>atoi\<close> of its text is not
  0); a copy takes the flag of its source; \<open>Resize\<close> calls \<open>Initialize\<close>, which reads the
  variable again and assigns the flag anew; every other call on the object, that is every
  other member function of Buffer.cpp that is not \<open>const\<close> (the fills with
  \<open>FillAddressOverlay\<close>, the byte, word, dword and qword setters in both byte orders,
  \<open>SetBytes\<close>, \<open>SetString\<close>, \<open>SetName\<close>, \<open>CopyTo\<close> as source and as destination,
  \<open>CopyFrom\<close>, \<open>CompareTo\<close>, \<open>IsAllZeros\<close>, \<open>CalculateChecksumByte\<close>), leaves the flag as
  it was, whether it returns or throws.
\<close>

theorem C9_pattern_mode_flag:
  "(Buffer_new h sc bps = Some out1 \<longrightarrow> usePatternMode (state_of out1) = getenv_flag h) \<and>
   (Buffer_copy h b = Inr c \<longrightarrow> usePatternMode c = usePatternMode b) \<and>
   (perform h now b op = Some out2 \<longrightarrow>
      usePatternMode (state_of out2) =
        (case op of OpResize sc' bps' \<Rightarrow> getenv_flag h | _ \<Rightarrow> usePatternMode b))"
proof (intro conjI impI)
  assume "Buffer_new h sc bps = Some out1"
  then show "usePatternMode (state_of out1) = getenv_flag h"
    unfolding Buffer_new_def by (rule Initialize_flag)
next
  assume "Buffer_copy h b = Inr c"
  then show "usePatternMode c = usePatternMode b"
    by (auto simp: Buffer_copy_def Let_def split: sum.splits)
next
  assume "perform h now b op = Some out2"
  then show "usePatternMode (state_of out2) =
        (case op of OpResize sc' bps' \<Rightarrow> getenv_flag h | _ \<Rightarrow> usePatternMode b)"
    by (rule perform_flag)
qed

theorem C9_pattern_mode_flag_witness:
  "Buffer_new \<lparr> dmxSimulatorEnabled = Some ''1'', newBase = 4096, newBytes = (\<lambda>j. 205) \<rparr> 2 4
     = Some (Returned (zero_buffer 2 4 True)) \<and>
   Buffer_copy \<lparr> dmxSimulatorEnabled = Some ''1'', newBase = 4096, newBytes = (\<lambda>j. 205) \<rparr>
     (zero_buffer 2 4 False) = Inr (zero_buffer 2 4 False) \<and>
   (\<exists>out. perform \<lparr> dmxSimulatorEnabled = Some ''1'', newBase = 4096, newBytes = (\<lambda>j. 205) \<rparr> 0
            (zero_buffer 2 4 False) (OpResize 2 4) = Some out \<and>
          usePatternMode (state_of out) \<and> \<not> usePatternMode (zero_buffer 2 4 False))"
proof -
  let ?h = "\<lparr> dmxSimulatorEnabled = Some ''1'', newBase = 4096, newBytes = (\<lambda>j. 205 :: 8 word) \<rparr>"
  let ?B = "zero_buffer 2 4 False"
  have flag: "getenv_flag ?h = True" by (rule getenv_flag_1)
  have new: "Buffer_new ?h 2 4 = Some (Returned (zero_buffer 2 4 True))"
    using Buffer_new_valid [of 2 4 ?h] flag by simp
  have inv: "Buffer_inv ?B" by (simp add: Buffer_inv_def zero_buffer_def)
  have "Buffer_copy ?h ?B = Inr (?B\<lparr> name := [] \<rparr>)"
    by (rule Buffer_copy_valid [OF inv]) (simp add: zero_buffer_def)
  then have copy: "Buffer_copy ?h ?B = Inr ?B" by (simp add: zero_buffer_def)
  obtain out where r: "perform ?h 0 ?B (OpResize 2 4) = Some out"
    using Resize_valid [OF inv, of 2 4 ?h] by simp
  from C9_pattern_mode_flag [of ?h 2 4 "Returned (zero_buffer 2 4 True)" ?B ?B 0 "OpResize 2 4" out]
  have "usePatternMode (state_of out)" using new copy r flag by simp
  moreover have "\<not> usePatternMode ?B" by (simp add: zero_buffer_def)
  ultimately show ?thesis using new copy r by blast
qed

text \<open>
  Claim C9 as stated fails at \<open>Resize\<close>: a buffer constructed while the variable is unset
  has the flag off; resized after the variable has been set to \<open>1\<close>, it has the flag on.
  And a copy constructed while the variable is \<open>1\<close> from a buffer whose flag is off has
  the flag off: the copy constructor does not read the variable.
\<close>

theorem C9_resize_rereads_environment:
  "Buffer_new \<lparr> dmxSimulatorEnabled = None, newBase = 4096, newBytes = (\<lambda>j. 205) \<rparr> 2 4
     = Some (Returned (zero_buffer 2 4 False)) \<and>
   \<not> usePatternMode (zero_buffer 2 4 False) \<and>
   (\<exists>b'. Resize \<lparr> dmxSimulatorEnabled = Some ''1'', newBase = 4096, newBytes = (\<lambda>j. 205) \<rparr>
           (zero_buffer 2 4 False) 2 4 = Some (Returned b') \<and> usePatternMode b') \<and>
   (\<exists>c. Buffer_copy \<lparr> dmxSimulatorEnabled = Some ''1'', newBase = 4096, newBytes = (\<lambda>j. 205) \<rparr>
           (zero_buffer 2 4 False) = Inr c \<and> \<not> usePatternMode c)"
proof -
  let ?h0 = "\<lparr> dmxSimulatorEnabled = None, newBase = 4096, newBytes = (\<lambda>j. 205 :: 8 word) \<rparr>"
  let ?h1 = "\<lparr> dmxSimulatorEnabled = Some ''1'', newBase = 4096, newBytes = (\<lambda>j. 205 :: 8 word) \<rparr>"
  let ?B = "zero_buffer 2 4 False"
  have new: "Buffer_new ?h0 2 4 = Some (Returned ?B)"
    using Buffer_new_valid [of 2 4 ?h0] getenv_flag_unset by simp
  have inv: "Buffer_inv ?B" by (simp add: Buffer_inv_def zero_buffer_def)
  have off: "\<not> usePatternMode ?B" by (simp add: zero_buffer_def)
  obtain b' where r: "Resize ?h1 ?B 2 4 = Some (Returned b')"
    and b': "b' = (zero_buffer 2 4 (getenv_flag ?h1))
                    \<lparr> dataStart :=
                        memcpy (replicate (2 * 4) 0) 0
                          (take (min (sectorCount ?B * bytesPerSector ?B) (2 * 4)) (dataStart ?B)) 0
                          (min (sectorCount ?B * bytesPerSector ?B) (2 * 4)) \<rparr>"
    using Resize_valid [OF inv, of 2 4 ?h1] by simp
  have on: "usePatternMode b'" unfolding b' by (simp add: zero_buffer_def getenv_flag_1)
  have "Buffer_copy ?h1 ?B = Inr (?B\<lparr> name := [] \<rparr>)"
    by (rule Buffer_copy_valid [OF inv]) (simp add: zero_buffer_def)
  then have copy: "\<exists>c. Buffer_copy ?h1 ?B = Inr c \<and> \<not> usePatternMode c"
    using off by simp
  from new off r on copy show ?thesis by blast
qed

section \<open>Random fills and the sector size\<close>

text \<open>
  Claim C6. When \<open>bytesPerSector\<close> is not a multiple of 4, each of \<open>FillRandom\<close>,
  \<open>FillRandomSeeded\<close> and \<open>FillRandomSeededBySector\<close> throws \<open>RuntimeError\<close> and leaves
  the object exactly as it was (no byte and no other member changed), for any buffer and
  any arguments; when it is a multiple of 4, the buffer is well-formed and the validator
  accepts the range, each of the three returns, so no such error is raised.
\<close>

theorem C6_random_fill_sector_size:
  "(bytesPerSector b mod 4 \<noteq> 0 \<longrightarrow>
      FillRandom now b s n = Some (Thrown RuntimeError b) \<and>
      FillRandomSeeded now b seed s n = Some (Thrown RuntimeError b) \<and>
      FillRandomSeededBySector now b seed s n = Some (Thrown RuntimeError b)) \<and>
   (bytesPerSector b mod 4 = 0 \<and> Buffer_inv b \<and> valid_range b s n \<longrightarrow>
      (\<exists>b'. FillRandom now b s n = Some (Returned b')) \<and>
      (\<exists>b'. FillRandomSeeded now b seed s n = Some (Returned b')) \<and>
      (\<exists>b'. FillRandomSeededBySector now b seed s n = Some (Returned b')))"
proof (intro conjI impI)
  assume "bytesPerSector b mod 4 \<noteq> 0"
  then show "FillRandom now b s n = Some (Thrown RuntimeError b)"
    and "FillRandomSeeded now b seed s n = Some (Thrown RuntimeError b)"
    and "FillRandomSeededBySector now b seed s n = Some (Thrown RuntimeError b)"
    by (simp_all add: FillRandom_def FillRandomSeeded_def FillRandomImpl_def
        FillRandomSeededBySector_def)
next
  assume a: "bytesPerSector b mod 4 = 0 \<and> Buffer_inv b \<and> valid_range b s n"
  then show "\<exists>b'. FillRandom now b s n = Some (Returned b')"
    unfolding FillRandom_def by (intro FillRandomImpl_returns) simp_all
  from a show "\<exists>b'. FillRandomSeeded now b seed s n = Some (Returned b')"
    unfolding FillRandomSeeded_def by (intro FillRandomImpl_returns) simp_all
  from a show "\<exists>b'. FillRandomSeededBySector now b seed s n = Some (Returned b')"
    by (intro FillRandomSeededBySector_returns) simp_all
qed

theorem C6_random_fill_sector_size_witness:
  "bytesPerSector (zero_buffer 2 513 False) mod 4 \<noteq> 0 \<and>
   FillRandom 0 (zero_buffer 2 513 False) 0 0 = Some (Thrown RuntimeError (zero_buffer 2 513 False)) \<and>
   FillRandomSeeded 0 (zero_buffer 2 513 False) 7 0 0
     = Some (Thrown RuntimeError (zero_buffer 2 513 False)) \<and>
   FillRandomSeededBySector 0 (zero_buffer 2 513 False) 7 0 0
     = Some (Thrown RuntimeError (zero_buffer 2 513 False)) \<and>
   bytesPerSector (zero_buffer 2 512 False) mod 4 = 0 \<and> Buffer_inv (zero_buffer 2 512 False) \<and>
   valid_range (zero_buffer 2 512 False) 0 0 \<and>
   (\<exists>b'. FillRandom 0 (zero_buffer 2 512 False) 0 0 = Some (Returned b')) \<and>
   (\<exists>b'. FillRandomSeeded 0 (zero_buffer 2 512 False) 7 0 0 = Some (Returned b')) \<and>
   (\<exists>b'. FillRandomSeededBySector 0 (zero_buffer 2 512 False) 7 0 0 = Some (Returned b'))"
proof -
  have a: "bytesPerSector (zero_buffer 2 513 False) mod 4 \<noteq> 0" by (simp add: zero_buffer_def)
  have b: "bytesPerSector (zero_buffer 2 512 False) mod 4 = 0" by (simp add: zero_buffer_def)
  have inv: "Buffer_inv (zero_buffer 2 512 False)" by (simp add: Buffer_inv_def zero_buffer_def)
  have v: "valid_range (zero_buffer 2 512 False) 0 0" by (simp add: valid_range_def zero_buffer_def)
  from C6_random_fill_sector_size [of "zero_buffer 2 513 False" 0 0 0 7] a
    C6_random_fill_sector_size [of "zero_buffer 2 512 False" 0 0 0 7] b inv v
  show ?thesis by blast
qed

section \<open>Seeded random fills\<close>

lemma GetRandom_seeded:
  "GetRandom now b True seed = (Random32_seeded seed, b\<lparr> random := Some (Random32_seeded seed) \<rparr>)"
proof -
  have "r\<lparr> generator := g, isSeeded := True \<rparr> = \<lparr> generator = g, isSeeded = True \<rparr>"
    for r :: Random32 and g
    by (cases r) simp
  then show ?thesis
    by (cases "random b") (simp_all add: GetRandom_def Random32_seeded_def Seed_def Let_def)
qed

lemma FillRandomSeeded_valid:
  assumes inv: "Buffer_inv b" and v: "valid_range b s n" and m4: "bytesPerSector b mod 4 = 0"
  shows "\<exists>d'. length d' = length (dataStart b) \<and>
           FillRandomSeeded now b seed s n =
             Some (Returned (b\<lparr> dataStart := d',
                              random := Some (Next_n ((s + range_count b s n) * bytesPerSector b div 4
                                                       - s * bytesPerSector b div 4)
                                                (Random32_seeded seed)) \<rparr>)) \<and>
           d' = (if usePatternMode b
                 then the (FillCompressionInfo_loop (bytesPerSector b) eRandomPattern 0
                        (s * bytesPerSector b) ((s + range_count b s n) * bytesPerSector b)
                        (s * bytesPerSector b + 20)
                        (snd (FillSectorsWithRandomData_loop True (bytesPerSector b)
                           (s * bytesPerSector b div 4)
                           ((s + range_count b s n) * bytesPerSector b div 4)
                           (replicate 12 0) (Random32_seeded seed) (dataStart b))))
                 else snd (FillSectorsWithRandomData_loop False (bytesPerSector b)
                           (s * bytesPerSector b div 4)
                           ((s + range_count b s n) * bytesPerSector b div 4)
                           (replicate 12 0) (Random32_seeded seed) (dataStart b)))"
proof -
  let ?r = "Random32_seeded seed"
  let ?b1 = "b\<lparr> random := Some ?r \<rparr>"
  have f: "frame b ?b1" by simp
  have inv1: "Buffer_inv ?b1" using inv f by (rule Buffer_inv_frame) simp
  have v1: "valid_range ?b1 s n" using v by (simp add: valid_range_def)
  have rc: "range_count ?b1 s n = range_count b s n" by (simp add: range_count_def)
  have sel: "bytesPerSector ?b1 = bytesPerSector b" "dataStart ?b1 = dataStart b"
    "usePatternMode ?b1 = usePatternMode b" by simp_all
  obtain d' where len: "length d' = length (dataStart b)"
    and run: "FillSectorsWithRandomData ?b1 ?r s n =
             Some (Inr (Next_n ((s + range_count b s n) * bytesPerSector b div 4
                                 - s * bytesPerSector b div 4) ?r,
                        ?b1\<lparr> dataStart := d' \<rparr>))"
    and d': "d' = (if usePatternMode b
                 then the (FillCompressionInfo_loop (bytesPerSector b) eRandomPattern 0
                        (s * bytesPerSector b) ((s + range_count b s n) * bytesPerSector b)
                        (s * bytesPerSector b + 20)
                        (snd (FillSectorsWithRandomData_loop True (bytesPerSector b)
                           (s * bytesPerSector b div 4)
                           ((s + range_count b s n) * bytesPerSector b div 4)
                           (replicate 12 0) ?r (dataStart b))))
                 else snd (FillSectorsWithRandomData_loop False (bytesPerSector b)
                           (s * bytesPerSector b div 4)
                           ((s + range_count b s n) * bytesPerSector b div 4)
                           (replicate 12 0) ?r (dataStart b)))"
    using FillSectorsWithRandomData_valid [OF inv1 v1, of ?r] unfolding rc sel by blast
  have "FillRandomSeeded now b seed s n =
          Some (Returned (b\<lparr> dataStart := d',
                           random := Some (Next_n ((s + range_count b s n) * bytesPerSector b div 4
                                                    - s * bytesPerSector b div 4) ?r) \<rparr>))"
    unfolding FillRandomSeeded_def FillRandomImpl_def Let_def GetRandom_seeded fst_conv snd_conv run
    using m4 by simp
  then show ?thesis using len d' by blast
qed

lemma RD_loop_whole_independent:
  assumes "length d = length d'" and "4 * stop = length d"
  shows "snd (FillSectorsWithRandomData_loop pm bps 0 stop gb r d)
         = snd (FillSectorsWithRandomData_loop pm bps 0 stop gb r d')"
proof (rule nth_equalityI)
  show "length (snd (FillSectorsWithRandomData_loop pm bps 0 stop gb r d))
        = length (snd (FillSectorsWithRandomData_loop pm bps 0 stop gb r d'))"
    using assms(1) by (simp add: RD_loop_length)
next
  fix j assume "j < length (snd (FillSectorsWithRandomData_loop pm bps 0 stop gb r d))"
  then have j: "j < length d" by (simp add: RD_loop_length)
  show "snd (FillSectorsWithRandomData_loop pm bps 0 stop gb r d) ! j
        = snd (FillSectorsWithRandomData_loop pm bps 0 stop gb r d') ! j"
    using assms(1) _ _ j
  proof (rule RD_loop_agree)
    show "j < 4 * stop" using j assms(2) by simp
    show "0 \<le> stop" by simp
  qed simp
qed

lemma CompareTo_whole_iff:
  assumes inva: "Buffer_inv a" and invb: "Buffer_inv b"
    and sc: "sectorCount a = sectorCount b" and bps: "bytesPerSector a = bytesPerSector b"
  shows "CompareTo a b 0 0 0 = Inr CompareResult_equal \<longleftrightarrow> dataStart a = dataStart b"
proof -
  let ?T = "sectorCount a * bytesPerSector a"
  have va: "valid_range a 0 0" using inva by (simp add: valid_range_def Buffer_inv_def)
  have vb: "valid_range b 0 0" using invb by (simp add: valid_range_def Buffer_inv_def)
  have ga: "GetStartAndStopBytesFromSectors a 0 0 = Inr (0, ?T)"
    using GetStartAndStop_valid [OF inva va] by (simp add: range_count_def)
  have gb: "GetStartAndStopBytesFromSectors b 0 0 = Inr (0, ?T)"
    using GetStartAndStop_valid [OF invb vb] sc bps by (simp add: range_count_def)
  have la: "length (dataStart a) = ?T" using inva by (simp add: Buffer_inv_def)
  have lb: "length (dataStart b) = ?T" using invb sc bps by (simp add: Buffer_inv_def)
  have m: "memcmp (dataStart a) (dataStart b) = 0 \<longleftrightarrow> dataStart a = dataStart b"
    by (rule memcmp_eq_0) (simp add: la lb)
  have ne: "CompareResult_unequal off e v \<noteq> CompareResult_equal" for off e v
    by (simp add: CompareResult_unequal_def CompareResult_equal_def)
  show ?thesis
    unfolding CompareTo_def ga gb using m ne by (simp add: Let_def la lb)
qed

lemma CompareTo_same_data:
  assumes "Buffer_inv a" and "Buffer_inv b"
    and "sectorCount a = sectorCount b" and "bytesPerSector a = bytesPerSector b"
    and "dataStart a = dataStart b"
  shows "CompareTo a b 0 0 0 = Inr CompareResult_equal"
  using CompareTo_whole_iff [OF assms(1-4)] assms(5) by simp

lemma FillRandomSeeded_whole:
  assumes inv: "Buffer_inv b" and m4: "bytesPerSector b mod 4 = 0"
  shows "FillRandomSeeded now b seed 0 0 =
           Some (Returned (b\<lparr> dataStart :=
               (if usePatternMode b
                 then the (FillCompressionInfo_loop (bytesPerSector b) eRandomPattern 0
                        0 (sectorCount b * bytesPerSector b) 20
                        (snd (FillSectorsWithRandomData_loop True (bytesPerSector b)
                           0 (sectorCount b * bytesPerSector b div 4)
                           (replicate 12 0) (Random32_seeded seed) (dataStart b))))
                 else snd (FillSectorsWithRandomData_loop False (bytesPerSector b)
                           0 (sectorCount b * bytesPerSector b div 4)
                           (replicate 12 0) (Random32_seeded seed) (dataStart b))),
              random := Some (Next_n (sectorCount b * bytesPerSector b div 4)
                                (Random32_seeded seed)) \<rparr>))"
proof -
  have v: "valid_range b 0 0" using inv by (simp add: valid_range_def Buffer_inv_def)
  have rc: "range_count b 0 0 = sectorCount b" by (simp add: range_count_def)
  show ?thesis
    using FillRandomSeeded_valid [OF inv v m4, of now seed] unfolding rc by auto
qed

lemma FillRandomSeeded_whole_length:
  assumes inv: "Buffer_inv b" and m4: "bytesPerSector b mod 4 = 0"
    and run: "FillRandomSeeded now b seed 0 0 = Some (Returned b')"
  shows "length (dataStart b') = length (dataStart b)"
proof -
  have v: "valid_range b 0 0" using inv by (simp add: valid_range_def Buffer_inv_def)
  show ?thesis
    using FillRandomSeeded_valid [OF inv v m4, of now seed] run by auto
qed

lemma RD_loop_plain_nth:
  assumes "j < length d" and "4 * stop \<le> length d"
  shows "snd (FillSectorsWithRandomData_loop False bps i stop gb r d) ! j =
           (if 4 * i \<le> j \<and> j < 4 * stop
            then word_bytes (fst (Next (Next_n (j div 4 - i) r))) ! (j mod 4) else d ! j)"
  using assms
proof (induction "stop - i" arbitrary: i gb r d rule: less_induct)
  case less
  show ?case
  proof (cases "i < stop")
    case False
    then have n: "\<not> (4 * i \<le> j \<and> j < 4 * stop)" by arith
    show ?thesis unfolding RD_loop_stop [OF False] snd_conv using n by (simp only: if_False)
  next
    case True
    let ?d1 = "store32 d i (fst (Next r))"
    have step: "FillSectorsWithRandomData_loop False bps i stop gb r d =
                FillSectorsWithRandomData_loop False bps (i + 1) stop gb (snd (Next r)) ?d1"
      using True by (simp add: RD_loop_step)
    have ih: "snd (FillSectorsWithRandomData_loop False bps (i + 1) stop gb (snd (Next r)) ?d1) ! j =
           (if 4 * (i + 1) \<le> j \<and> j < 4 * stop
            then word_bytes (fst (Next (Next_n (j div 4 - (i + 1)) (snd (Next r))))) ! (j mod 4)
            else ?d1 ! j)"
      using True less.prems by (intro less.hyps) (simp_all add: length_store32)
    have in_d: "4 * i + 4 \<le> length d" using True less.prems by simp
    show ?thesis
    proof (cases "4 * (i + 1) \<le> j \<and> j < 4 * stop")
      case True
      then have "Suc i \<le> j div 4" by arith
      then have "j div 4 - i = Suc (j div 4 - (i + 1))" by simp
      then have "Next_n (j div 4 - i) r = Next_n (j div 4 - (i + 1)) (snd (Next r))" by simp
      then show ?thesis unfolding step ih using True by simp
    next
      case out: False
      show ?thesis
      proof (cases "4 * i \<le> j \<and> j < 4 * i + 4")
        case True
        then have dv: "j div 4 = i" by arith
        have md: "j mod 4 = j - 4 * i" using True dv by (metis add_diff_cancel_left' mult_div_mod_eq)
        have "?d1 ! j = word_bytes (fst (Next r)) ! (j - 4 * i)"
          using True less.prems(1) by (simp add: nth_store32)
        then show ?thesis unfolding step ih using True out \<open>i < stop\<close> dv md by simp
      next
        case False
        have e: "?d1 ! j = d ! j"
          unfolding nth_store32 [OF less.prems(1)] using False by (simp only: if_False)
        have n: "\<not> (4 * i \<le> j \<and> j < 4 * stop)" using False out by auto
        show ?thesis unfolding step ih if_not_P [OF out] if_not_P [OF n] by (rule e)
      qed
    qed
  qed
qed

lemma Next_seed_2_3: "Next (Random32_seeded 2) = Next (Random32_seeded 3)"
  by code_simp

lemma sixth_word_seed_2:
  "word_bytes (fst (Next (Next_n 5 (Random32_seeded 2)))) ! 0 = 3"
  by code_simp



section \<open>The zero corner case of the type and length byte\<close>

text \<open>
  Claim C2, as the code has it. \<open>FillCompressionInfo\<close> tests \<open>_dataStart[startByte]\<close>,
  the first byte of the filled range, and not the first byte of the sector it is writing.
  For a well-formed buffer in pattern mode with sectors of at least 21 bytes and a sector
  range the validator accepts, \<open>Fill(x)\<close> and \<open>FillBytes(list)\<close> (1 to 8 pattern bytes)
  return, the first byte of the range is \<open>x\<close>, respectively \<open>list[0]\<close>, and in every sector
  \<open>k\<close> of the range the byte at sector offset 20 is: the type and length byte
  \<open>(eFixPattern << 4) | len\<close> when that first byte of the range is not 0, and the payload
  byte of the fill (the type and length byte is not written) when it is 0.
\<close>

theorem C2_type_byte_corner_case:
  assumes inv: "Buffer_inv b" and pm: "usePatternMode b" and v: "valid_range b s n"
    and bps: "21 \<le> bytesPerSector b" and ne: "list \<noteq> []" and l: "length list \<le> 8"
  shows "\<exists>b1 b2. Fill b x s n = Some (Returned b1) \<and>
           FillBytes b list s n = Some (Returned b2) \<and>
           dataStart b1 ! (s * bytesPerSector b) = x \<and>
           dataStart b2 ! (s * bytesPerSector b) = list ! 0 \<and>
           (\<forall>k < range_count b s n.
              dataStart b1 ! ((s + k) * bytesPerSector b + 20) =
                (if x = 0 then x else push_bit 4 eFixPattern OR 1) \<and>
              dataStart b2 ! ((s + k) * bytesPerSector b + 20) =
                (if list ! 0 = 0 then list ! ((k * bytesPerSector b + 20) mod length list)
                 else push_bit 4 eFixPattern OR of_nat (length list)))"
proof -
  let ?bps = "bytesPerSector b" and ?rc = "range_count b s n" and ?P = "length list"
  let ?sb = "s * ?bps"
  have rc: "0 < ?rc" using inv v by (rule range_count_pos)
  have pos: "0 < ?bps" using bps by simp
  have sec: "(s + k) * ?bps + 20 = ?sb + k * ?bps + 20" for k by (simp add: add_mult_distrib)
  from Fill_pattern_mode [OF inv pm v bps, of x]
  obtain d1 where r1: "Fill b x s n = Some (Returned (b\<lparr> dataStart := d1 \<rparr>))"
    and ty1: "\<forall>k < ?rc. d1 ! (?sb + k * ?bps + 20) = (if x = 0 then 0 else push_bit 4 eFixPattern OR 1)"
    and pay1: "\<forall>k < ?rc. \<forall>y < ?bps. y \<noteq> 20 \<longrightarrow> d1 ! (?sb + k * ?bps + y) = x"
    by blast
  from FillBytes_pattern_mode [OF inv pm v bps ne l]
  obtain d2 d' where r2: "FillBytes b list s n = Some (Returned (b\<lparr> dataStart := d' \<rparr>))"
    and pay2: "\<forall>m < ?rc * ?bps. d2 ! (?sb + m) = list ! (m mod ?P)"
    and ty2: "\<forall>k < ?rc. d' ! (?sb + k * ?bps + 20) =
                (if list ! 0 = 0 then list ! ((k * ?bps + 20) mod ?P)
                 else push_bit 4 eFixPattern OR of_nat ?P)"
    and ot2: "\<forall>k < ?rc. \<forall>y < ?bps. y \<noteq> 20 \<and> \<not> (8 \<le> y \<and> y < 8 + ?P) \<longrightarrow>
                d' ! (?sb + k * ?bps + y) = d2 ! (?sb + k * ?bps + y)"
    by blast
  have f1: "d1 ! ?sb = x" using pay1 [rule_format, OF rc pos, of ] by simp
  have "d' ! (?sb + 0 * ?bps + 0) = d2 ! (?sb + 0 * ?bps + 0)"
    using rc pos by (intro ot2 [rule_format]) simp_all
  moreover have "d2 ! (?sb + 0) = list ! (0 mod ?P)"
    using rc pos by (intro pay2 [rule_format]) simp
  ultimately have f2: "d' ! ?sb = list ! 0" by simp
  have ty: "\<forall>k < ?rc.
              d1 ! ((s + k) * ?bps + 20) = (if x = 0 then x else push_bit 4 eFixPattern OR 1) \<and>
              d' ! ((s + k) * ?bps + 20) =
                (if list ! 0 = 0 then list ! ((k * ?bps + 20) mod ?P)
                 else push_bit 4 eFixPattern OR of_nat ?P)"
    unfolding sec using ty1 ty2 by simp
  show ?thesis
    using r1 r2 f1 f2 ty
    by (intro exI [of _ "b\<lparr> dataStart := d1 \<rparr>"] exI [of _ "b\<lparr> dataStart := d' \<rparr>"]) simp
qed

theorem C2_type_byte_corner_case_witness:
  "Buffer_inv (zero_buffer 2 32 True) \<and> usePatternMode (zero_buffer 2 32 True) \<and>
   valid_range (zero_buffer 2 32 True) 0 0 \<and>
   (\<exists>b1 b2. Fill (zero_buffer 2 32 True) 7 0 0 = Some (Returned b1) \<and>
      FillBytes (zero_buffer 2 32 True) [5, 6, 7] 0 0 = Some (Returned b2) \<and>
      dataStart b1 ! 0 = 7 \<and> dataStart b2 ! 0 = 5 \<and>
      dataStart b1 ! 20 = 1 \<and> dataStart b1 ! 52 = 1 \<and>
      dataStart b2 ! 20 = 3 \<and> dataStart b2 ! 52 = 3)"
proof -
  let ?B = "zero_buffer 2 32 True"
  have inv: "Buffer_inv ?B" by (simp add: Buffer_inv_def zero_buffer_def)
  have pm: "usePatternMode ?B" by (simp add: zero_buffer_def)
  have v: "valid_range ?B 0 0" by (simp add: valid_range_def zero_buffer_def)
  have bps: "bytesPerSector ?B = 32" by (simp add: zero_buffer_def)
  have rc: "range_count ?B 0 0 = 2" by (simp add: range_count_def zero_buffer_def)
  have b21: "21 \<le> bytesPerSector ?B" by (simp add: bps)
  have ne: "[5, 6, 7 :: 8 word] \<noteq> []" and l: "length [5, 6, 7 :: 8 word] \<le> 8" by simp_all
  from C2_type_byte_corner_case [OF inv pm v b21 ne l, of 7]
  obtain b1 b2 where r1: "Fill ?B 7 0 0 = Some (Returned b1)"
    and r2: "FillBytes ?B [5, 6, 7] 0 0 = Some (Returned b2)"
    and f: "dataStart b1 ! (0 * bytesPerSector ?B) = 7"
           "dataStart b2 ! (0 * bytesPerSector ?B) = [5, 6, 7] ! 0"
    and ty: "\<forall>k < range_count ?B 0 0.
              dataStart b1 ! ((0 + k) * bytesPerSector ?B + 20) =
                (if (7 :: 8 word) = 0 then 7 else push_bit 4 eFixPattern OR 1) \<and>
              dataStart b2 ! ((0 + k) * bytesPerSector ?B + 20) =
                (if [5, 6, 7 :: 8 word] ! 0 = 0
                 then [5, 6, 7] ! ((k * bytesPerSector ?B + 20) mod length [5, 6, 7 :: 8 word])
                 else push_bit 4 eFixPattern OR of_nat (length [5, 6, 7 :: 8 word]))"
    by blast
  have t0: "dataStart b1 ! 20 = 1 \<and> dataStart b2 ! 20 = 3"
    using ty [rule_format, of 0] by (simp add: bps rc eFixPattern_def)
  have t1: "dataStart b1 ! 52 = 1 \<and> dataStart b2 ! 52 = 3"
    using ty [rule_format, of 1] by (simp add: bps rc eFixPattern_def)
  from inv pm v r1 r2 f t0 t1 show ?thesis by (simp add: bps)
qed

text \<open>
  Against claim C2 as stated, which tests the first byte of each sector. \<open>FillBytes\<close> with
  the pattern \<open>0, 1, 2\<close> on a pattern-mode buffer of two sectors of 32 bytes leaves 2 as the
  first byte of the second sector (offset 32), which is not 0, and yet the type and length
  byte of that sector (offset 52) is not written: it holds the payload byte 1 and not
  \<open>0x03\<close>. With the pattern \<open>1, 0, 0\<close> the first byte of the second sector is 0 and its type
  and length byte is written: offset 52 holds \<open>0x03\<close>, where the payload has 0.
\<close>

theorem C2_first_byte_of_range:
  "(\<exists>b'. FillBytes (zero_buffer 2 32 True) [0, 1, 2] 0 0 = Some (Returned b') \<and>
         dataStart b' ! 32 = 2 \<and> dataStart b' ! 52 = 1) \<and>
   (\<exists>b'. FillBytes (zero_buffer 2 32 True) [1, 0, 0] 0 0 = Some (Returned b') \<and>
         dataStart b' ! 32 = 0 \<and> dataStart b' ! 52 = 3)"
proof -
  let ?B = "zero_buffer 2 32 True"
  have inv: "Buffer_inv ?B" by (simp add: Buffer_inv_def zero_buffer_def)
  have pm: "usePatternMode ?B" by (simp add: zero_buffer_def)
  have v: "valid_range ?B 0 0" by (simp add: valid_range_def zero_buffer_def)
  have bps: "bytesPerSector ?B = 32" by (simp add: zero_buffer_def)
  have rc: "range_count ?B 0 0 = 2" by (simp add: range_count_def zero_buffer_def)
  have b21: "21 \<le> bytesPerSector ?B" by (simp add: bps)
  have gen: "\<exists>b'. FillBytes ?B list 0 0 = Some (Returned b') \<and>
               dataStart b' ! 32 = list ! 2 \<and>
               dataStart b' ! 52 = (if list ! 0 = 0 then list ! 1 else 3)"
    if len: "length list = 3" for list
  proof -
    have ne: "list \<noteq> []" and l: "length list \<le> 8" using len by auto
    from FillBytes_pattern_mode [OF inv pm v b21 ne l]
    obtain d2 d' where r: "FillBytes ?B list 0 0 = Some (Returned (?B\<lparr> dataStart := d' \<rparr>))"
      and pay: "\<forall>m < range_count ?B 0 0 * bytesPerSector ?B.
                  d2 ! (0 * bytesPerSector ?B + m) = list ! (m mod length list)"
      and ty: "\<forall>k < range_count ?B 0 0.
                d' ! (0 * bytesPerSector ?B + k * bytesPerSector ?B + 20) =
                  (if list ! 0 = 0 then list ! ((k * bytesPerSector ?B + 20) mod length list)
                   else push_bit 4 eFixPattern OR of_nat (length list))"
      and ot: "\<forall>k < range_count ?B 0 0. \<forall>y < bytesPerSector ?B.
                y \<noteq> 20 \<and> \<not> (8 \<le> y \<and> y < 8 + length list) \<longrightarrow>
                  d' ! (0 * bytesPerSector ?B + k * bytesPerSector ?B + y)
                    = d2 ! (0 * bytesPerSector ?B + k * bytesPerSector ?B + y)"
      by blast
    have "d' ! 32 = d2 ! 32" using ot [rule_format, of 1 0] by (simp add: bps rc)
    moreover have "d2 ! 32 = list ! 2" using pay [rule_format, of 32] by (simp add: bps rc len)
    ultimately have a: "d' ! 32 = list ! 2" by simp
    have c: "d' ! 52 = (if list ! 0 = 0 then list ! 1 else 3)"
      using ty [rule_format, of 1] by (simp add: bps rc len eFixPattern_def)
    show ?thesis using r a c by simp
  qed
  show ?thesis using gen [of "[0, 1, 2]"] gen [of "[1, 0, 0]"] by simp
qed


section \<open>The generator snapshot of a random fill\<close>

lemma RD_loop_keep:
  assumes "p < length d" and "p < 4 * i"
    and "\<And>i'. i \<le> i' \<Longrightarrow> i' < stop \<Longrightarrow> i' mod (bps div 4) = 6 \<Longrightarrow> p + 16 < 4 * i'"
  shows "snd (FillSectorsWithRandomData_loop pm bps i stop gb r d) ! p = d ! p"
  using assms
proof (induction "stop - i" arbitrary: i gb r d rule: less_induct)
  case less
  show ?case
  proof (cases "i < stop")
    case False
    then show ?thesis by (simp add: RD_loop_stop)
  next
    case True
    have m: "stop - (i + 1) < stop - i" using True by simp
    define gb1 where "gb1 = (if pm \<and> i mod (bps div 4) = 0
                             then memcpy gb 0 (taus88_bytes (generator r)) 0 12 else gb)"
    define c where "c = (pm \<and> i mod (bps div 4) \<noteq> 0 \<and> i mod (bps div 4) = 6)"
    define d1 where "d1 = (if c then memcpy d (4 * (i - 4)) gb1 0 12 else d)"
    define e where "e = store32 d1 i (fst (Next r))"
    have l1: "length d1 = length d" by (cases c) (simp_all add: d1_def)
    have le: "length e = length d" by (simp add: e_def length_store32 l1)
    have d1p: "d1 ! p = d ! p"
    proof (cases c)
      case True
      then have "i mod (bps div 4) = 6" by (simp add: c_def)
      then have "p + 16 < 4 * i" using less.prems(3) [of i] \<open>i < stop\<close> by simp
      then have "\<not> (4 * (i - 4) \<le> p \<and> p < 4 * (i - 4) + 12)" by arith
      with less.prems(1) have "memcpy d (4 * (i - 4)) gb1 0 12 ! p = d ! p"
        by (rule nth_memcpy_out)
      then show ?thesis using True by (simp add: d1_def)
    next
      case False
      then show ?thesis by (simp add: d1_def)
    qed
    have ep: "e ! p = d ! p"
      using less.prems(1,2) d1p by (simp add: e_def nth_store32 l1)
    have "snd (FillSectorsWithRandomData_loop pm bps (i + 1) stop gb1 (snd (Next r)) e) ! p = e ! p"
      using m
    proof (rule less.hyps)
      show "p < length e" using less.prems(1) le by simp
      show "p < 4 * (i + 1)" using less.prems(2) by simp
      show "\<And>i'. i + 1 \<le> i' \<Longrightarrow> i' < stop \<Longrightarrow> i' mod (bps div 4) = 6 \<Longrightarrow> p + 16 < 4 * i'"
        using less.prems(3) by simp
    qed
    then show ?thesis
      unfolding RD_loop_step [OF True] gb1_def [symmetric] c_def [symmetric] d1_def [symmetric]
        e_def [symmetric] using ep by simp
  qed
qed

lemma index_in_sector:
  fixes W :: nat
  assumes "B mod W = 0" and "B \<le> i" and "i < B + W"
  shows "i mod W = i - B"
proof -
  have "i = B + (i - B)" using assms(2) by simp
  then have "i mod W = (B + (i - B)) mod W" by simp
  also have "\<dots> = (B mod W + (i - B)) mod W" by (simp add: mod_add_left_eq)
  also have "\<dots> = i - B" using assms by simp
  finally show ?thesis .
qed

lemma next_sixth_word:
  fixes W :: nat
  assumes B0: "B mod W = 0" and W: "7 \<le> W" and i': "B + 7 \<le> i'" and six: "i' mod W = 6"
  shows "B + W + 6 \<le> i'"
proof -
  define q where "q = i' - B"
  have i'q: "i' = B + q" and q7: "7 \<le> q" using i' by (simp_all add: q_def)
  have "i' mod W = (B mod W + q) mod W" unfolding i'q by (simp add: mod_add_left_eq)
  then have qm: "q mod W = 6" using six B0 by simp
  have "W \<le> q"
  proof (rule ccontr)
    assume "\<not> W \<le> q"
    then have "q mod W = q" by simp
    then show False using qm q7 by simp
  qed
  then have "(q - W) mod W = 6" using qm by (simp add: le_mod_geq)
  moreover have "(q - W) mod W \<le> q - W" by (rule mod_less_eq_dividend)
  ultimately have "6 \<le> q - W" by simp
  then show ?thesis using \<open>W \<le> q\<close> unfolding i'q by simp
qed

lemma RD_loop_pending:
  assumes W: "7 \<le> bps div 4" and B0: "B mod (bps div 4) = 0" and j: "j < 12"
  shows "B < i \<Longrightarrow> i \<le> B + 6 \<Longrightarrow> B + 6 < stop \<Longrightarrow> 4 * stop \<le> length d \<Longrightarrow>
         snd (FillSectorsWithRandomData_loop True bps i stop gb r d) ! (4 * B + 8 + j) = gb ! j"
proof (induction "B + 6 - i" arbitrary: i r d rule: less_induct)
  case less
  let ?W = "bps div 4"
  let ?p = "4 * B + 8 + j"
  have run: "i < stop" using less.prems(2,3) by simp
  have idx: "i mod ?W = i - B"
    using B0 by (rule index_in_sector) (use less.prems W in simp_all)
  have n0: "i mod ?W \<noteq> 0" using idx less.prems(1) by simp
  have pl: "?p < length d" using less.prems(3,4) j by simp
  show ?case
  proof (cases "i = B + 6")
    case True
    then have six: "i mod ?W = 6" using idx by simp
    define d1 where "d1 = memcpy d (4 * (i - 4)) gb 0 12"
    define e where "e = store32 d1 i (fst (Next r))"
    have step: "FillSectorsWithRandomData_loop True bps i stop gb r d =
                FillSectorsWithRandomData_loop True bps (i + 1) stop gb (snd (Next r)) e"
      unfolding RD_loop_step [OF run] e_def d1_def using six by simp
    have le: "length e = length d" by (simp add: e_def d1_def length_store32)
    have dst: "4 * (i - 4) = 4 * B + 8" using True by simp
    have "d1 ! ?p = gb ! (0 + (?p - (4 * B + 8)))"
      unfolding d1_def dst using pl j by (intro nth_memcpy_in) simp_all
    then have d1p: "d1 ! ?p = gb ! j" by simp
    have ep: "e ! ?p = gb ! j"
      using pl j True d1p by (simp add: e_def nth_store32 d1_def)
    have "snd (FillSectorsWithRandomData_loop True bps (i + 1) stop gb (snd (Next r)) e) ! ?p = e ! ?p"
    proof (rule RD_loop_keep)
      show "?p < length e" using pl le by simp
      show "?p < 4 * (i + 1)" using True j by simp
      fix i' assume a: "i + 1 \<le> i'" "i' < stop" "i' mod ?W = 6"
      have "B + ?W + 6 \<le> i'" using B0 W _ a(3) by (rule next_sixth_word) (use a(1) True in simp)
      then show "?p + 16 < 4 * i'" using W j by simp
    qed
    then show ?thesis unfolding step using ep by simp
  next
    case False
    then have lt: "i < B + 6" using less.prems(2) by simp
    then have n6: "i mod ?W \<noteq> 6" using idx less.prems(1) by simp
    define e where "e = store32 d i (fst (Next r))"
    have step: "FillSectorsWithRandomData_loop True bps i stop gb r d =
                FillSectorsWithRandomData_loop True bps (i + 1) stop gb (snd (Next r)) e"
      unfolding RD_loop_step [OF run] e_def using n0 n6 by simp
    have le: "length e = length d" by (simp add: e_def length_store32)
    have "snd (FillSectorsWithRandomData_loop True bps (i + 1) stop gb (snd (Next r)) e) ! ?p = gb ! j"
    proof (rule less.hyps)
      show "B + 6 - (i + 1) < B + 6 - i" using lt by simp
      show "B < i + 1" using less.prems(1) by simp
      show "i + 1 \<le> B + 6" using lt by simp
      show "B + 6 < stop" by (rule less.prems(3))
      show "4 * stop \<le> length e" using less.prems(4) le by simp
    qed
    then show ?thesis unfolding step .
  qed
qed

lemma RD_loop_snapshot:
  assumes W: "7 \<le> bps div 4" and B0: "B mod (bps div 4) = 0" and j: "j < 12"
  shows "i \<le> B \<Longrightarrow> B + 6 < stop \<Longrightarrow> 4 * stop \<le> length d \<Longrightarrow> 12 \<le> length gb \<Longrightarrow>
         snd (FillSectorsWithRandomData_loop True bps i stop gb r d) ! (4 * B + 8 + j)
           = taus88_bytes (generator (Next_n (B - i) r)) ! j"
proof (induction "B - i" arbitrary: i r d gb rule: less_induct)
  case less
  let ?W = "bps div 4"
  let ?p = "4 * B + 8 + j"
  have run: "i < stop" using less.prems(1,2) by simp
  define gb1 where "gb1 = (if i mod ?W = 0
                           then memcpy gb 0 (taus88_bytes (generator r)) 0 12 else gb)"
  define c where "c = (i mod ?W \<noteq> 0 \<and> i mod ?W = 6)"
  define e where "e = store32 (if c then memcpy d (4 * (i - 4)) gb1 0 12 else d) i (fst (Next r))"
  have step: "FillSectorsWithRandomData_loop True bps i stop gb r d =
              FillSectorsWithRandomData_loop True bps (i + 1) stop gb1 (snd (Next r)) e"
    unfolding RD_loop_step [OF run] e_def c_def gb1_def by simp
  have le: "length e = length d" by (cases c) (simp_all add: e_def length_store32)
  have lg: "length gb1 = length gb" by (simp add: gb1_def)
  show ?case
  proof (cases "i = B")
    case True
    have g: "gb1 ! j = taus88_bytes (generator r) ! j"
    proof -
      have "memcpy gb 0 (taus88_bytes (generator r)) 0 12 ! j
              = taus88_bytes (generator r) ! (0 + (j - 0))"
        using j less.prems(4) by (intro nth_memcpy_in) simp_all
      then show ?thesis using True B0 by (simp add: gb1_def)
    qed
    have "snd (FillSectorsWithRandomData_loop True bps (i + 1) stop gb1 (snd (Next r)) e) ! ?p
            = gb1 ! j"
      using W B0 j
    proof (rule RD_loop_pending)
      show "B < i + 1" using True by simp
      show "i + 1 \<le> B + 6" using True by simp
      show "B + 6 < stop" by (rule less.prems(2))
      show "4 * stop \<le> length e" using less.prems(3) le by simp
    qed
    then show ?thesis unfolding step g using True by simp
  next
    case False
    then have lt: "i < B" using less.prems(1) by simp
    have "snd (FillSectorsWithRandomData_loop True bps (i + 1) stop gb1 (snd (Next r)) e) ! ?p
            = taus88_bytes (generator (Next_n (B - (i + 1)) (snd (Next r)))) ! j"
    proof (rule less.hyps)
      show "B - (i + 1) < B - i" using lt by simp
      show "i + 1 \<le> B" using lt by simp
      show "B + 6 < stop" by (rule less.prems(2))
      show "4 * stop \<le> length e" using less.prems(3) le by simp
      show "12 \<le> length gb1" using less.prems(4) lg by simp
    qed
    moreover have "B - i = Suc (B - (i + 1))" using lt by simp
    ultimately show ?thesis unfolding step by simp
  qed
qed


lemma FillSectorsWithRandomData_record:
  assumes inv: "Buffer_inv b" and pm: "usePatternMode b" and v: "valid_range b s n"
    and m4: "bytesPerSector b mod 4 = 0" and b28: "28 \<le> bytesPerSector b"
  shows "\<exists>d'. FillSectorsWithRandomData b r s n =
                 Some (Inr (Next_n (range_count b s n * (bytesPerSector b div 4)) r,
                            b\<lparr> dataStart := d' \<rparr>)) \<and>
           length d' = length (dataStart b) \<and>
           (\<forall>k < range_count b s n.
              d' ! (s * bytesPerSector b + k * bytesPerSector b + 20)
                = push_bit 4 eRandomPattern OR 0 \<and>
              (\<forall>j < 12. d' ! (s * bytesPerSector b + k * bytesPerSector b + 8 + j)
                 = taus88_bytes (generator (Next_n (k * (bytesPerSector b div 4)) r)) ! j))"
proof -
  let ?bps = "bytesPerSector b" and ?rc = "range_count b s n"
  let ?sb = "s * ?bps" and ?eb = "(s + ?rc) * ?bps"
  define W where "W = ?bps div 4"
  have bw: "?bps = 4 * W" using m4 by (simp add: W_def mod_eq_0_iff_dvd)
  have W7: "7 \<le> ?bps div 4" using b28 by simp
  have sbd: "?sb div 4 = s * W" and ebd: "?eb div 4 = (s + ?rc) * W"
    unfolding bw by simp_all
  have sb4: "?sb = 4 * (s * W)" and eb4: "?eb = 4 * ((s + ?rc) * W)" unfolding bw by simp_all
  have eb: "?eb = ?sb + ?rc * ?bps" by (simp add: add_mult_distrib)
  have ebl: "?eb \<le> length (dataStart b)" by (rule range_in_payload(1) [OF inv v])
  have bps21: "21 \<le> ?bps" and pos: "0 < ?bps" using b28 by simp_all
  have l0: "unat (0 :: 8 word) \<le> 8" by simp
  define L where "L = snd (FillSectorsWithRandomData_loop True ?bps (?sb div 4) (?eb div 4)
                             (replicate 12 0) r (dataStart b))"
  have lenL: "length L = length (dataStart b)" by (simp add: L_def RD_loop_length)
  obtain dp where run: "FillCompressionInfo_loop ?bps eRandomPattern 0 ?sb ?eb (?sb + 20) L = Some dp"
    and lendp: "length dp = length L"
    using FCI_loop_Some [OF pos] by blast
  from FillSectorsWithRandomData_valid [OF inv v, of r]
  have res: "FillSectorsWithRandomData b r s n =
               Some (Inr (Next_n (?eb div 4 - ?sb div 4) r, b\<lparr> dataStart := dp \<rparr>))"
    using pm run unfolding L_def by auto
  have gen: "?eb div 4 - ?sb div 4 = ?rc * (?bps div 4)"
    unfolding sbd ebd W_def [symmetric] by (simp add: add_mult_distrib)
  have run': "FillCompressionInfo_loop ?bps eRandomPattern 0 ?sb (?sb + ?rc * ?bps) (?sb + 20) L = Some dp"
    using run unfolding eb .
  have ebl': "?sb + ?rc * ?bps \<le> length L" using ebl unfolding eb lenL .
  note lay = FCI_loop_layout [OF bps21 l0 ebl' run']
  have ty: "dp ! (?sb + k * ?bps + 20) = push_bit 4 eRandomPattern OR 0" if "k < ?rc" for k
    using lay(1) [rule_format, OF that] by (simp add: eRandomPattern_def eFixPattern_def)
  have snap: "dp ! (?sb + k * ?bps + 8 + j) = taus88_bytes (generator (Next_n (k * (?bps div 4)) r)) ! j"
    if k: "k < ?rc" and j: "j < 12" for k j
  proof -
    let ?B = "(s + k) * W"
    have x: "8 + j < ?bps" using j b28 by simp
    have "dp ! (?sb + k * ?bps + (8 + j)) = L ! (?sb + k * ?bps + (8 + j))"
      using lay(3) [rule_format, OF k x] j by simp
    then have a: "dp ! (?sb + k * ?bps + 8 + j) = L ! (4 * ?B + 8 + j)"
      unfolding bw by (simp add: add_mult_distrib algebra_simps)
    have B0: "?B mod (?bps div 4) = 0" unfolding W_def [symmetric] by simp
    have "L ! (4 * ?B + 8 + j) = taus88_bytes (generator (Next_n (?B - s * W) r)) ! j"
      unfolding L_def sbd ebd using W7 B0 j
    proof (rule RD_loop_snapshot)
      show "s * W \<le> ?B" by simp
      have "s + k < s + ?rc" using k by simp
      then show "?B + 6 < (s + ?rc) * W" using W7 unfolding W_def [symmetric]
        by (intro sector_below) simp_all
      show "4 * ((s + ?rc) * W) \<le> length (dataStart b)" using ebl unfolding eb4 .
      show "12 \<le> length (replicate 12 (0 :: 8 word))" by simp
    qed
    moreover have "?B - s * W = k * (?bps div 4)"
      unfolding W_def [symmetric] by (simp add: add_mult_distrib)
    ultimately show ?thesis using a by simp
  qed
  have len: "length dp = length (dataStart b)" using lendp lenL by simp
  show ?thesis
    unfolding gen [symmetric] using res len ty snap by (intro exI [of _ dp]) simp
qed

lemma FillPattern_sectors:
  assumes inv: "Buffer_inv b" and v: "valid_range b s n" and len: "length d1 = length (dataStart b)"
  shows "\<exists>d2. length d2 = length (dataStart b) \<and>
           (if (s + range_count b s n) * bytesPerSector b > s * bytesPerSector b + bytesPerSector b
            then FillPattern (b\<lparr> dataStart := d1 \<rparr>) (s * bytesPerSector b) (bytesPerSector b)
                   (s * bytesPerSector b + bytesPerSector b)
                   ((s + range_count b s n) * bytesPerSector b)
            else Some (b\<lparr> dataStart := d1 \<rparr>)) = Some (b\<lparr> dataStart := d2 \<rparr>)"
proof -
  let ?bps = "bytesPerSector b"
  let ?sb = "s * ?bps" and ?eb = "(s + range_count b s n) * ?bps"
  have ebl: "?eb \<le> length (dataStart b)" and first: "?sb + ?bps \<le> ?eb"
    using range_in_payload [OF inv v] by simp_all
  have pos: "0 < ?bps" using inv by (simp add: Buffer_inv_def)
  show ?thesis
  proof (cases "?eb > ?sb + ?bps")
    case False
    then show ?thesis using len by auto
  next
    case True
    have "\<exists>d'. FillPattern_loop ?sb ?bps (?sb + ?bps) ?eb d1 = Some d' \<and> length d' = length d1 \<and>
              (\<forall>m < ?eb - ?sb. d' ! (?sb + m) = d' ! (?sb + m mod ?bps)) \<and>
              (\<forall>p < length d1. p < ?sb + ?bps \<or> ?eb \<le> p \<longrightarrow> d' ! p = d1 ! p)"
      using pos
    proof (rule FillPattern_loop_periodic)
      show "?bps dvd ?bps" by simp
      show "0 < ?bps" by (rule pos)
      show "?bps \<le> ?sb + ?bps - ?sb" by simp
      show "?bps dvd ?sb + ?bps - ?sb" by simp
      show "?sb + ?bps \<le> ?eb" by (rule first)
      show "?eb \<le> length d1" using ebl len by simp
      show "\<And>m. m < ?sb + ?bps - ?sb \<Longrightarrow> d1 ! (?sb + m) = d1 ! (?sb + m mod ?bps)" by simp
    qed
    then obtain d' where run: "FillPattern_loop ?sb ?bps (?sb + ?bps) ?eb d1 = Some d'"
      and len': "length d' = length d1" by blast
    have "FillPattern (b\<lparr> dataStart := d1 \<rparr>) ?sb ?bps (?sb + ?bps) ?eb
            = Some (b\<lparr> dataStart := d' \<rparr>)"
      using run by (simp add: FillPattern_def)
    then show ?thesis using True len len' by auto
  qed
qed

lemma FillDecrementing_unfold:
  assumes inv: "Buffer_inv b" and v: "valid_range b s n"
  shows "\<exists>d2. length d2 = length (dataStart b) \<and>
           FillDecrementing b v0 s n =
             (if usePatternMode b
              then map_option Returned
                     (FillCompressionInfo (b\<lparr> dataStart := d2 \<rparr>) eDecrementingPattern 1
                        (s * bytesPerSector b) ((s + range_count b s n) * bytesPerSector b))
              else Some (Returned (b\<lparr> dataStart := d2 \<rparr>)))"
proof -
  let ?bps = "bytesPerSector b"
  let ?sb = "s * ?bps" and ?eb = "(s + range_count b s n) * ?bps"
  let ?d1 = "FillDecrementing_loop ?sb (?sb + ?bps) v0 (dataStart b)"
  have g: "GetStartAndStopBytesFromSectors b s n = Inr (?sb, ?eb)"
    using inv v by (rule GetStartAndStop_valid)
  have "length ?d1 = length (dataStart b)" by simp
  from FillPattern_sectors [OF inv v this]
  obtain d2 where len: "length d2 = length (dataStart b)"
    and fp: "(if ?eb > ?sb + ?bps
           then FillPattern (b\<lparr> dataStart := ?d1 \<rparr>) ?sb ?bps (?sb + ?bps) ?eb
           else Some (b\<lparr> dataStart := ?d1 \<rparr>)) = Some (b\<lparr> dataStart := d2 \<rparr>)"
    by blast
  have unf: "FillDecrementing b v0 s n =
      Option.bind
        (if ?eb > ?sb + ?bps
         then FillPattern (b\<lparr> dataStart := ?d1 \<rparr>) ?sb ?bps (?sb + ?bps) ?eb
         else Some (b\<lparr> dataStart := ?d1 \<rparr>))
        (\<lambda>b2. if usePatternMode b2
              then map_option Returned (FillCompressionInfo b2 eDecrementingPattern 1 ?sb ?eb)
              else Some (Returned b2))"
    unfolding FillDecrementing_def g by (simp add: Let_def)
  have "FillDecrementing b v0 s n =
          (if usePatternMode b
           then map_option Returned
                  (FillCompressionInfo (b\<lparr> dataStart := d2 \<rparr>) eDecrementingPattern 1 ?sb ?eb)
           else Some (Returned (b\<lparr> dataStart := d2 \<rparr>)))"
    unfolding unf fp by simp
  then show ?thesis using len by blast
qed

lemma stepping_record:
  assumes inv: "Buffer_inv b" and v: "valid_range b s n" and bps: "21 \<le> bytesPerSector b"
    and len: "length d2 = length (dataStart b)"
    and t: "t = eIncrementingPattern \<or> t = eDecrementingPattern"
  shows "\<exists>d'. FillCompressionInfo (b\<lparr> dataStart := d2 \<rparr>) t 1 (s * bytesPerSector b)
                 ((s + range_count b s n) * bytesPerSector b) = Some (b\<lparr> dataStart := d' \<rparr>) \<and>
           length d' = length (dataStart b) \<and>
           (\<forall>k < range_count b s n.
              d' ! (s * bytesPerSector b + k * bytesPerSector b + 20) = push_bit 4 t OR 1 \<and>
              d' ! (s * bytesPerSector b + k * bytesPerSector b + 8)
                = d' ! (s * bytesPerSector b + k * bytesPerSector b))"
proof -
  let ?bps = "bytesPerSector b" and ?rc = "range_count b s n"
  let ?sb = "s * ?bps"
  have l1: "unat (1 :: 8 word) \<le> 8" by simp
  have nf: "t \<noteq> eFixPattern"
    using t by (auto simp: eFixPattern_def eIncrementingPattern_def eDecrementingPattern_def)
  have tt: "t = eFixPattern \<or> t = eIncrementingPattern \<or> t = eDecrementingPattern" using t by blast
  from FillCompressionInfo_layout [OF inv v bps l1 len, of t]
  obtain d' where fci: "FillCompressionInfo (b\<lparr> dataStart := d2 \<rparr>) t 1 ?sb
                          ((s + ?rc) * ?bps) = Some (b\<lparr> dataStart := d' \<rparr>)"
    and len': "length d' = length d2"
    and ty: "\<forall>k < ?rc. d' ! (?sb + k * ?bps + 20) =
                (if d2 ! ?sb = 0 \<and> t = eFixPattern then d2 ! (?sb + k * ?bps + 20)
                 else push_bit 4 t OR 1)"
    and cp: "\<forall>k < ?rc. \<forall>j < unat (1 :: 8 word).
                d' ! (?sb + k * ?bps + 8 + j) = d2 ! (?sb + k * ?bps + j)"
    and ot: "\<forall>k < ?rc. \<forall>y < ?bps. y \<noteq> 20 \<and> \<not> (8 \<le> y \<and> y < 8 + unat (1 :: 8 word)) \<longrightarrow>
                d' ! (?sb + k * ?bps + y) = d2 ! (?sb + k * ?bps + y)"
    using tt by auto
  have rec: "d' ! (?sb + k * ?bps + 20) = push_bit 4 t OR 1 \<and>
             d' ! (?sb + k * ?bps + 8) = d' ! (?sb + k * ?bps)" if k: "k < ?rc" for k
  proof -
    have a: "d' ! (?sb + k * ?bps + 20) = push_bit 4 t OR 1"
      using ty [rule_format, OF k] nf by simp
    have "d' ! (?sb + k * ?bps + 8 + 0) = d2 ! (?sb + k * ?bps + 0)"
      using k by (intro cp [rule_format]) simp_all
    moreover have "d' ! (?sb + k * ?bps + 0) = d2 ! (?sb + k * ?bps + 0)"
      using k bps by (intro ot [rule_format]) simp_all
    ultimately show ?thesis using a by simp
  qed
  have "length d' = length (dataStart b)" using len' len by simp
  with fci rec show ?thesis by blast
qed


section \<open>The payload of a seeded fill and the generator\<close>

lemma RD_loop_word:
  assumes m: "m < 4"
  shows "i \<le> q \<Longrightarrow> q < stop \<Longrightarrow> 4 * stop \<le> length d \<Longrightarrow>
         (\<And>i'. q < i' \<Longrightarrow> i' < stop \<Longrightarrow> i' mod (bps div 4) = 6 \<Longrightarrow> 4 * q + m + 16 < 4 * i') \<Longrightarrow>
         snd (FillSectorsWithRandomData_loop pm bps i stop gb r d) ! (4 * q + m)
           = word_bytes (fst (Next (Next_n (q - i) r))) ! m"
proof (induction "q - i" arbitrary: i r d gb rule: less_induct)
  case less
  let ?p = "4 * q + m"
  have run: "i < stop" using less.prems(1,2) by simp
  define gb1 where "gb1 = (if pm \<and> i mod (bps div 4) = 0
                           then memcpy gb 0 (taus88_bytes (generator r)) 0 12 else gb)"
  define c where "c = (pm \<and> i mod (bps div 4) \<noteq> 0 \<and> i mod (bps div 4) = 6)"
  define d1 where "d1 = (if c then memcpy d (4 * (i - 4)) gb1 0 12 else d)"
  define e where "e = store32 d1 i (fst (Next r))"
  have step: "FillSectorsWithRandomData_loop pm bps i stop gb r d =
              FillSectorsWithRandomData_loop pm bps (i + 1) stop gb1 (snd (Next r)) e"
    unfolding RD_loop_step [OF run] e_def d1_def c_def gb1_def by simp
  have l1: "length d1 = length d" by (cases c) (simp_all add: d1_def)
  have le: "length e = length d" by (simp add: e_def l1)
  have pl: "?p < length d" using less.prems(2,3) m by simp
  show ?case
  proof (cases "i = q")
    case True
    have "e ! ?p = word_bytes (fst (Next r)) ! (?p - 4 * i)"
      using pl l1 m True by (simp add: e_def nth_store32)
    then have ep: "e ! ?p = word_bytes (fst (Next r)) ! m" using True by simp
    have "snd (FillSectorsWithRandomData_loop pm bps (i + 1) stop gb1 (snd (Next r)) e) ! ?p = e ! ?p"
    proof (rule RD_loop_keep)
      show "?p < length e" using pl le by simp
      show "?p < 4 * (i + 1)" using True m by simp
      show "\<And>i'. i + 1 \<le> i' \<Longrightarrow> i' < stop \<Longrightarrow> i' mod (bps div 4) = 6 \<Longrightarrow> ?p + 16 < 4 * i'"
        using less.prems(4) True by simp
    qed
    then show ?thesis unfolding step ep using True by simp
  next
    case False
    then have lt: "i < q" using less.prems(1) by simp
    have "snd (FillSectorsWithRandomData_loop pm bps (i + 1) stop gb1 (snd (Next r)) e) ! ?p
            = word_bytes (fst (Next (Next_n (q - (i + 1)) (snd (Next r))))) ! m"
    proof (rule less.hyps)
      show "q - (i + 1) < q - i" using lt by simp
      show "i + 1 \<le> q" using lt by simp
      show "q < stop" by (rule less.prems(2))
      show "4 * stop \<le> length e" using less.prems(3) le by simp
      show "\<And>i'. q < i' \<Longrightarrow> i' < stop \<Longrightarrow> i' mod (bps div 4) = 6 \<Longrightarrow> ?p + 16 < 4 * i'"
        by (rule less.prems(4))
    qed
    moreover have "q - i = Suc (q - (i + 1))" using lt by simp
    ultimately show ?thesis unfolding step by simp
  qed
qed

lemma FillRandomSeeded_first_word:
  assumes inv: "Buffer_inv b" and m4: "bytesPerSector b mod 4 = 0"
    and run: "FillRandomSeeded now b seed 0 0 = Some (Returned b')" and m: "m < 4"
  shows "dataStart b' ! m = word_bytes (fst (Next (Random32_seeded seed))) ! m"
proof -
  let ?bps = "bytesPerSector b" and ?T = "sectorCount b * bytesPerSector b"
  let ?r = "Random32_seeded seed"
  have len: "length (dataStart b) = ?T" using inv by (simp add: Buffer_inv_def)
  have pos: "0 < ?bps" "0 < sectorCount b" using inv by (simp_all add: Buffer_inv_def)
  have "4 dvd ?bps" using m4 by (simp add: mod_eq_0_iff_dvd)
  then have b4: "4 \<le> ?bps" using pos(1) by (rule dvd_imp_le)
  have "1 \<le> sectorCount b" using pos(2) by simp
  then have "1 * ?bps \<le> ?T" by (rule mult_le_mono1)
  then have T4: "4 \<le> ?T" using b4 by (simp only: mult_1 le_trans)
  have "4 dvd ?T" using m4 by (simp add: mod_eq_0_iff_dvd)
  then have stop: "4 * (?T div 4) = ?T" by simp
  have s0: "0 < ?T div 4" using T4 by simp
  have L: "snd (FillSectorsWithRandomData_loop pm ?bps 0 (?T div 4) (replicate 12 0) ?r (dataStart b))
             ! (4 * 0 + m) = word_bytes (fst (Next (Next_n (0 - 0) ?r))) ! m" for pm
    using m
  proof (rule RD_loop_word)
    show "(0 :: nat) \<le> 0" by simp
    show "0 < ?T div 4" by (rule s0)
    show "4 * (?T div 4) \<le> length (dataStart b)" using stop len by simp
    fix i' :: nat assume "i' mod (?bps div 4) = 6"
    moreover have "i' mod (?bps div 4) \<le> i'" by (rule mod_less_eq_dividend)
    ultimately have "6 \<le> i'" by simp
    then show "4 * 0 + m + 16 < 4 * i'" using m by simp
  qed
  show ?thesis
  proof (cases "usePatternMode b")
    case False
    then have "dataStart b' = snd (FillSectorsWithRandomData_loop False ?bps 0 (?T div 4)
                                     (replicate 12 0) ?r (dataStart b))"
      using run unfolding FillRandomSeeded_whole [OF inv m4] by auto
    then show ?thesis using L [of False] by simp
  next
    case True
    define LP where "LP = snd (FillSectorsWithRandomData_loop True ?bps 0 (?T div 4)
                                 (replicate 12 0) ?r (dataStart b))"
    obtain dp where dp: "FillCompressionInfo_loop ?bps eRandomPattern 0 0 ?T 20 LP = Some dp"
      using FCI_loop_Some [OF pos(1)] by blast
    have "dataStart b' = the (FillCompressionInfo_loop ?bps eRandomPattern 0 0 ?T 20 LP)"
      using run True unfolding FillRandomSeeded_whole [OF inv m4] LP_def by auto
    then have d: "dataStart b' = dp" using dp by simp
    have lenLP: "length LP = ?T" by (simp add: LP_def RD_loop_length len)
    have "dp ! m = LP ! m"
      using pos(1) dp by (rule FCI_loop_below) (use m T4 lenLP in simp_all)
    then show ?thesis unfolding d using L [of True] by (simp add: LP_def)
  qed
qed

lemma FillRandomSeeded_plain_bytes:
  assumes inv: "Buffer_inv b" and m4: "bytesPerSector b mod 4 = 0" and npm: "\<not> usePatternMode b"
    and run: "FillRandomSeeded now b seed 0 0 = Some (Returned b')"
    and j: "j < sectorCount b * bytesPerSector b"
  shows "dataStart b' ! j = word_bytes (fst (Next (Next_n (j div 4) (Random32_seeded seed)))) ! (j mod 4)"
proof -
  let ?bps = "bytesPerSector b" and ?T = "sectorCount b * bytesPerSector b"
  have len: "length (dataStart b) = ?T" using inv by (simp add: Buffer_inv_def)
  have "4 dvd ?T" using m4 by (simp add: mod_eq_0_iff_dvd)
  then have stop: "4 * (?T div 4) = ?T" by simp
  have d: "dataStart b' = snd (FillSectorsWithRandomData_loop False ?bps 0 (?T div 4)
                                 (replicate 12 0) (Random32_seeded seed) (dataStart b))"
    using run npm unfolding FillRandomSeeded_whole [OF inv m4] by auto
  show ?thesis
    unfolding d
    using RD_loop_plain_nth [of j "dataStart b" "?T div 4" ?bps 0 "replicate 12 0" "Random32_seeded seed"]
      j len stop by simp
qed

lemma CompareTo_whole_first_diff:
  assumes inva: "Buffer_inv a" and invb: "Buffer_inv b"
    and sc: "sectorCount a = sectorCount b" and bps: "bytesPerSector a = bytesPerSector b"
    and k: "k < sectorCount a * bytesPerSector a"
    and ne: "dataStart a ! k \<noteq> dataStart b ! k"
    and eq: "\<And>j. j < k \<Longrightarrow> dataStart a ! j = dataStart b ! j"
  shows "CompareTo a b 0 0 0 = Inr (CompareResult_unequal k (dataStart a ! k) (dataStart b ! k))"
proof -
  let ?T = "sectorCount a * bytesPerSector a"
  have va: "valid_range a 0 0" using inva by (simp add: valid_range_def Buffer_inv_def)
  have vb: "valid_range b 0 0" using invb by (simp add: valid_range_def Buffer_inv_def)
  have ga: "GetStartAndStopBytesFromSectors a 0 0 = Inr (0, ?T)"
    using GetStartAndStop_valid [OF inva va] by (simp add: range_count_def)
  have gb: "GetStartAndStopBytesFromSectors b 0 0 = Inr (0, ?T)"
    using GetStartAndStop_valid [OF invb vb] sc bps by (simp add: range_count_def)
  have la: "length (dataStart a) = ?T" using inva by (simp add: Buffer_inv_def)
  have lb: "length (dataStart b) = ?T" using invb sc bps by (simp add: Buffer_inv_def)
  have "dataStart a \<noteq> dataStart b" using ne by auto
  moreover have "memcmp (dataStart a) (dataStart b) = 0 \<longleftrightarrow> dataStart a = dataStart b"
    by (rule memcmp_eq_0) (simp add: la lb)
  ultimately have m: "memcmp (dataStart a) (dataStart b) \<noteq> 0" by simp
  have scan: "CompareTo_scan (dataStart a) 0 (dataStart b) 0 0 ?T = (0 + k, 0 + k)"
  proof (rule CompareTo_scan_first)
    show "0 \<le> k" by simp
    show "k < ?T" by (rule k)
    show "dataStart a ! (0 + k) \<noteq> dataStart b ! (0 + k)" using ne by simp
    show "\<And>j. 0 \<le> j \<Longrightarrow> j < k \<Longrightarrow> dataStart a ! (0 + j) = dataStart b ! (0 + j)"
      using eq by simp
  qed
  show ?thesis
    unfolding CompareTo_def ga gb using m scan by (simp add: Let_def la lb)
qed

lemma first_word_12345: "word_bytes (fst (Next (Random32_seeded 12345))) ! 0 = 118"
  by code_simp

lemma first_word_54321: "word_bytes (fst (Next (Random32_seeded 54321))) ! 0 = 158"
  by code_simp


lemma FillRandomSeeded_whole_inv:
  assumes inv: "Buffer_inv b" and m4: "bytesPerSector b mod 4 = 0"
    and run: "FillRandomSeeded now b seed 0 0 = Some (Returned b')"
  shows "Buffer_inv b'" and "sectorCount b' = sectorCount b"
    and "bytesPerSector b' = bytesPerSector b" and "usePatternMode b' = usePatternMode b"
proof -
  have len: "length (dataStart b') = length (dataStart b)"
    using inv m4 run by (rule FillRandomSeeded_whole_length)
  show sc: "sectorCount b' = sectorCount b" and bps: "bytesPerSector b' = bytesPerSector b"
    and "usePatternMode b' = usePatternMode b"
    using run unfolding FillRandomSeeded_whole [OF inv m4] by auto
  show "Buffer_inv b'" using inv len sc bps by (simp add: Buffer_inv_def)
qed

lemma whole_buffer_holds_a_word:
  assumes inv: "Buffer_inv b" and m4: "bytesPerSector b mod 4 = 0"
  shows "4 \<le> sectorCount b * bytesPerSector b"
proof -
  have pos: "0 < bytesPerSector b" "0 < sectorCount b" using inv by (simp_all add: Buffer_inv_def)
  have "4 dvd bytesPerSector b" using m4 by (simp add: mod_eq_0_iff_dvd)
  then have b4: "4 \<le> bytesPerSector b" using pos(1) by (rule dvd_imp_le)
  have "1 \<le> sectorCount b" using pos(2) by simp
  then have "1 * bytesPerSector b \<le> sectorCount b * bytesPerSector b" by (rule mult_le_mono1)
  then show ?thesis using b4 by (simp only: mult_1 le_trans)
qed


section \<open>Seeded fills are deterministic\<close>





section \<open>Where the compression record lies\<close>

lemma snapshot_seed_1:
  "taus88_bytes (generator (Random32_seeded 1)) = [3, 0, 0, 0, 9, 0, 0, 0, 17, 0, 0, 0]"
  by code_simp

lemma snapshot_seed_1_second_sector:
  "taus88_bytes (generator (Next_n 8 (Random32_seeded 1))) ! 0 = 144"
  by code_simp






section \<open>CompareResult: the equality flag and the difference counter\<close>

lemma AddDifference_unequal:
  "\<not> areEqual r \<Longrightarrow>
     AddDifference r off e a = r\<lparr> differenceCount := size_t (differenceCount r + 1) \<rparr>"
  by (simp add: AddDifference_def)

lemma AddDifferences_unequal:
  "\<not> areEqual r \<Longrightarrow>
     AddDifferences r ds = r\<lparr> differenceCount := size_t (differenceCount r + length ds) \<rparr>
     \<or> (ds = [] \<and> AddDifferences r ds = r)"
proof (induction ds arbitrary: r)
  case Nil
  then show ?case by simp
next
  case (Cons d ds)
  obtain off e a where d: "d = (off, e, a)" by (cases d) auto
  let ?r1 = "AddDifference r off e a"
  have r1: "?r1 = r\<lparr> differenceCount := size_t (differenceCount r + 1) \<rparr>"
    using Cons.prems by (rule AddDifference_unequal)
  have ne: "\<not> areEqual ?r1" using Cons.prems by (simp add: r1)
  from Cons.IH [OF ne] show ?case
    by (auto simp: d r1 size_t_def mod_simps)
qed

lemma AddDifferences_count:
  "\<not> areEqual r \<Longrightarrow> differenceCount r < 2 ^ 64 \<Longrightarrow>
     differenceCount (AddDifferences r ds) = size_t (differenceCount r + length ds)"
  using AddDifferences_unequal [of r ds] by (auto simp: size_t_def)

lemma AddDifferences_areEqual:
  "\<not> areEqual r \<Longrightarrow> \<not> areEqual (AddDifferences r ds)"
  using AddDifferences_unequal [of r ds] by auto

lemma AddDifferences_equal_start:
  "differenceCount (AddDifferences CompareResult_equal ds) = size_t (length ds) \<and>
   (areEqual (AddDifferences CompareResult_equal ds) \<longleftrightarrow> ds = [])"
proof (cases ds)
  case Nil
  then show ?thesis by (simp add: CompareResult_equal_def size_t_def)
next
  case (Cons d ds')
  obtain off e a where d: "d = (off, e, a)" by (cases d) auto
  let ?r1 = "AddDifference CompareResult_equal off e a"
  have ne: "\<not> areEqual ?r1" and c: "differenceCount ?r1 = 1"
    by (simp_all add: AddDifference_def CompareResult_equal_def)
  have "differenceCount (AddDifferences ?r1 ds') = size_t (1 + length ds')"
    using AddDifferences_count [OF ne, of ds'] c by simp
  moreover have "\<not> areEqual (AddDifferences ?r1 ds')"
    using ne by (rule AddDifferences_areEqual)
  ultimately show ?thesis by (simp add: Cons d)
qed

text \<open>
  Claim C10, as the code has it. The counter is a \<open>size_t\<close>: for a result built by either
  constructor and fewer than \<open>2 ^ 64 - 1\<close> calls of \<open>AddDifference\<close>, \<open>areEqual\<close>
  holds exactly when \<open>differenceCount\<close> is 0; and on an unequal result a further call
  keeps \<open>firstDifferenceOffset\<close>, \<open>expectedValue\<close> and \<open>actualValue\<close>, keeps the result
  unequal and adds one to the counter in \<open>size_t\<close> arithmetic.
\<close>

theorem C10_compare_result_invariant:
  assumes "r0 = CompareResult_equal \<or> r0 = CompareResult_unequal off0 e0 a0"
    and "length ds < 2 ^ 64 - 1"
  shows "(areEqual (AddDifferences r0 ds) \<longleftrightarrow> differenceCount (AddDifferences r0 ds) = 0) \<and>
         (\<not> areEqual (AddDifferences r0 ds) \<longrightarrow>
            \<not> areEqual (AddDifference (AddDifferences r0 ds) off e a) \<and>
            firstDifferenceOffset (AddDifference (AddDifferences r0 ds) off e a)
              = firstDifferenceOffset (AddDifferences r0 ds) \<and>
            expectedValue (AddDifference (AddDifferences r0 ds) off e a)
              = expectedValue (AddDifferences r0 ds) \<and>
            actualValue (AddDifference (AddDifferences r0 ds) off e a)
              = actualValue (AddDifferences r0 ds) \<and>
            differenceCount (AddDifference (AddDifferences r0 ds) off e a)
              = size_t (differenceCount (AddDifferences r0 ds) + 1))"
proof -
  have first: "areEqual (AddDifferences r0 ds) \<longleftrightarrow> differenceCount (AddDifferences r0 ds) = 0"
    using assms(1)
  proof
    assume r0: "r0 = CompareResult_equal"
    have "length ds < 2 ^ 64" using assms(2) by simp
    then have "size_t (length ds) = length ds" by (rule size_t_id)
    then show ?thesis using AddDifferences_equal_start [of ds] by (simp add: r0)
  next
    assume r0: "r0 = CompareResult_unequal off0 e0 a0"
    have ne: "\<not> areEqual r0" and c: "differenceCount r0 = 1"
      by (simp_all add: r0 CompareResult_unequal_def)
    have "1 + length ds < 2 ^ 64" using assms(2) by simp
    then have "size_t (1 + length ds) = 1 + length ds" by (rule size_t_id)
    then have "differenceCount (AddDifferences r0 ds) = 1 + length ds"
      using AddDifferences_count [OF ne, of ds] c by simp
    then show ?thesis using AddDifferences_areEqual [OF ne, of ds] by simp
  qed
  have second: "\<not> areEqual r \<Longrightarrow>
      \<not> areEqual (AddDifference r off e a) \<and>
      firstDifferenceOffset (AddDifference r off e a) = firstDifferenceOffset r \<and>
      expectedValue (AddDifference r off e a) = expectedValue r \<and>
      actualValue (AddDifference r off e a) = actualValue r \<and>
      differenceCount (AddDifference r off e a) = size_t (differenceCount r + 1)" for r
    by (simp add: AddDifference_unequal)
  from first second show ?thesis by blast
qed

theorem C10_compare_result_invariant_witness:
  "length [(200 :: nat, 1 :: 8 word, 2 :: 8 word), (300, 3, 4)] < 2 ^ 64 - 1 \<and>
   (areEqual (AddDifferences (CompareResult_unequal 100 100 255) [(200, 1, 2), (300, 3, 4)])
      \<longleftrightarrow> differenceCount
            (AddDifferences (CompareResult_unequal 100 100 255) [(200, 1, 2), (300, 3, 4)]) = 0) \<and>
   firstDifferenceOffset
     (AddDifference (AddDifferences (CompareResult_unequal 100 100 255) [(200, 1, 2), (300, 3, 4)])
        400 5 6) = 100 \<and>
   differenceCount
     (AddDifference (AddDifferences (CompareResult_unequal 100 100 255) [(200, 1, 2), (300, 3, 4)])
        400 5 6) = 4"
  using C10_compare_result_invariant
    [of "CompareResult_unequal 100 100 255" 100 100 255 "[(200, 1, 2), (300, 3, 4)]" 400 5 6]
  by (simp add: AddDifference_def CompareResult_unequal_def size_t_def)

text \<open>
  Claim C10 as stated fails where the counter wraps: after the unequal constructor and
  \<open>2 ^ 64 - 1\<close> further calls the result is unequal and its \<open>differenceCount\<close> is 0.
\<close>

theorem C10_counter_wraps:
  "\<not> (areEqual (AddDifferences (CompareResult_unequal 0 0 0) (replicate (2 ^ 64 - 1) (0, 0, 0)))
       \<longleftrightarrow> differenceCount (AddDifferences (CompareResult_unequal 0 0 0)
                                (replicate (2 ^ 64 - 1) (0, 0, 0))) = 0)"
proof -
  have ne: "\<not> areEqual (CompareResult_unequal 0 0 0)" by (simp add: CompareResult_unequal_def)
  have c: "differenceCount (CompareResult_unequal 0 0 0) < 2 ^ 64"
    by (simp add: CompareResult_unequal_def)
  show ?thesis
    using AddDifferences_areEqual [OF ne] AddDifferences_count [OF ne c]
    by (simp add: size_t_def CompareResult_unequal_def)
qed

end
